theory Spec2Isabelle
  imports Main
begin

section \<open>The service container of \<open>src/container/IoCContainer.ts\<close>\<close>

text \<open>
  The class \<open>IoCContainer\<close> maps service names to factories, builds instances under one
  of three lifetimes, keeps a set of the names under construction to detect cycles, and
  calls the \<open>dispose\<close> method of the instances it holds. This theory embeds the class as
  functions over an explicit state: every \<open>throw\<close> of the source is an \<open>Inl\<close> result, every
  mutation of a field is a record update.
\<close>

subsection \<open>JavaScript values\<close>

text \<open>
  \<open>ServiceLifetime\<close> is the enum of the interfaces file. The \<open>default:\<close> branch of the
  \<open>switch\<close> in \<open>resolve\<close> is reached by no value of the enum and has no counterpart here.
\<close>

datatype ServiceLifetime = Singleton | Scoped | Transient

text \<open>
  What a factory may return. An object is a reference \<open>Obj r\<close> into the heap of the state;
  two objects are the same object exactly when the references are equal. The other
  constructors are primitives. NaN is not modelled.
\<close>

datatype val = Undefined | Null | Bool bool | Num int | Str string | Obj nat

text \<open>JavaScript truthiness, as tested by \<open>!registration.instance\<close> and \<open>registration.instance &&\<close>.\<close>

fun truthy :: "val \<Rightarrow> bool" where
  "truthy Undefined = False"
| "truthy Null = False"
| "truthy (Bool b) = b"
| "truthy (Num n) = (n \<noteq> 0)"
| "truthy (Str s) = (s \<noteq> [])"
| "truthy (Obj r) = True"

text \<open>
  What the property \<open>dispose\<close> of an object is: absent, a function that returns, or a
  function that throws \<open>new Error(msg)\<close>. A \<open>dispose\<close> method does not call back into the
  container.
\<close>

datatype hook = NoDispose | DisposeOk | DisposeThrows string

text \<open>
  The errors of the class, one constructor per \<open>throw\<close> site (the source throws plain
  \<open>Error\<close> objects that differ in their message): \<open>AlreadyRegistered\<close> in \<open>register\<close>,
  \<open>NotRegistered\<close> and \<open>CircularDependency\<close> in \<open>resolve\<close>, \<open>ConstructionFailed\<close> in
  \<open>createInstance\<close> (it carries the name and the error it caught). \<open>Thrown\<close> is an
  \<open>Error\<close> thrown by a factory or by a \<open>dispose\<close> method, \<open>TypeError\<close> is the engine's error
  for reading a property of \<open>undefined\<close> or \<open>null\<close>.
\<close>

datatype error =
    AlreadyRegistered string
  | NotRegistered string
  | CircularDependency "string list"
  | ConstructionFailed string error
  | Thrown string
  | TypeError

type_synonym 'a result = "error + 'a"

text \<open>\<open>xs.join(sep)\<close> of an array of strings.\<close>

fun join :: "string \<Rightarrow> string list \<Rightarrow> string" where
  "join sep [] = []"
| "join sep [x] = x"
| "join sep (x # y # ys) = x @ sep @ join sep (y # ys)"

text \<open>The message of the error thrown at the cycle check of \<open>resolve\<close>.\<close>

definition cycle_message :: "string list \<Rightarrow> string" where
  "cycle_message cycle = ''Circular dependency detected: '' @ join '' -> '' cycle"

subsection \<open>Factories\<close>

text \<open>
  A factory is a closure \<open>(container) => instance\<close>. Its body is a sequence of calls
  \<open>container.resolve(dep)\<close> whose results it does not return, ended by \<open>return v\<close>, by
  \<open>return new C()\<close> (a fresh object, with the given \<open>dispose\<close> property) or by
  \<open>throw new Error(msg)\<close>. A body does not catch what \<open>resolve\<close> throws and calls no other
  method of the container.
\<close>

datatype body =
    Return val
  | Construct hook
  | Throw string
  | Resolve string body

text \<open>
  A factory either runs the same body at every invocation, or it is a closure with
  state of its own, \<open>let k = 0; (c) => { k++; ... }\<close>. A closure with state is a function
  from the number of its earlier invocations to the body it runs, together with a number
  that identifies the closure: the same closure registered twice, under two names or
  again after \<open>dispose\<close>, keeps its count, and a new closure starts at zero. The container
  is the only caller of a factory.
\<close>

datatype ServiceFactory =
    Stateless body
  | Stateful nat "nat \<Rightarrow> body"


text \<open>
  A listener attached with \<open>on('service.registered', listener)\<close>, a method the class
  inherits from \<open>EventEmitter\<close>: a function that returns or one that throws
  \<open>new Error(msg)\<close>. A listener does not call back into the container.
\<close>

datatype listener = ListenerOk | ListenerThrows string

subsection \<open>The state\<close>

record ServiceRegistration =
  factory :: ServiceFactory
  lifetime :: ServiceLifetime
  instance' :: val
  dependencies :: "string list"

record DependencyNode =
  node_name :: string
  node_dependencies :: "string list"
  visited :: bool
  inStack :: bool

text \<open>
  The four private fields of the class come first. A JavaScript \<open>Map\<close> is an association
  list in insertion order with distinct keys, a \<open>Set\<close> a list in insertion order without
  repetition. An absent \<open>instance\<close> field reads as \<open>undefined\<close>, so it is \<open>Undefined\<close>.

  \<open>listeners\<close> is the state of the inherited event emitter: the listeners of the event
  \<open>service.registered\<close>, in the order they were attached.

  The remaining fields are what the container touches outside itself: \<open>emitted\<close> logs the
  \<open>service.registered\<close> events, \<open>heap\<close> holds the \<open>dispose\<close> property of every object
  constructed so far (\<open>Obj r\<close> is entry \<open>r\<close>), \<open>calls\<close> logs the factory invocations by
  service name, \<open>invoked\<close> logs the invocations of closures with state by their number, and
  \<open>disposed\<close> logs the invocations of \<open>dispose\<close> methods by reference.
\<close>

record state =
  services :: "(string \<times> ServiceRegistration) list"
  scopedInstances :: "(string \<times> val) list"
  dependencyGraph :: "(string \<times> DependencyNode) list"
  resolutionStack :: "string list"
  listeners :: "listener list"
  emitted :: "(string \<times> ServiceLifetime) list"
  heap :: "hook list"
  calls :: "string list"
  invoked :: "nat list"
  disposed :: "nat list"

text \<open>
  \<open>new IoCContainer()\<close> in a program that has constructed no object and invoked no
  closure yet.
\<close>

definition new_container :: state where
  "new_container =
     \<lparr>services = [], scopedInstances = [], dependencyGraph = [], resolutionStack = [],
      listeners = [], emitted = [], heap = [], calls = [], invoked = [], disposed = []\<rparr>"

text \<open>\<open>Map.has\<close>, \<open>Map.get\<close> and \<open>Map.set\<close> (a present key keeps its place, a new one goes last).\<close>

definition Map_has :: "(string \<times> 'v) list \<Rightarrow> string \<Rightarrow> bool" where
  "Map_has m k = (map_of m k \<noteq> None)"

definition Map_get :: "(string \<times> 'v) list \<Rightarrow> string \<Rightarrow> 'v option" where
  "Map_get m k = map_of m k"

fun Map_set :: "(string \<times> 'v) list \<Rightarrow> string \<Rightarrow> 'v \<Rightarrow> (string \<times> 'v) list" where
  "Map_set [] k v = [(k, v)]"
| "Map_set ((k', v') # m) k v = (if k' = k then (k, v) # m else (k', v') # Map_set m k v)"

text \<open>\<open>Set.add\<close> and \<open>Set.delete\<close>.\<close>

definition Set_add :: "string list \<Rightarrow> string \<Rightarrow> string list" where
  "Set_add xs x = (if x \<in> set xs then xs else xs @ [x])"

definition Set_delete :: "string list \<Rightarrow> string \<Rightarrow> string list" where
  "Set_delete xs x = filter (\<lambda>y. y \<noteq> x) xs"

text \<open>
  The assignment \<open>registration.instance = v\<close>: \<open>registration\<close> is the object stored in
  \<open>services\<close> under \<open>name\<close>, and no factory body changes the keys of \<open>services\<close>, so the
  assignment updates the entry of that name.
\<close>

definition assign_instance ::
  "(string \<times> ServiceRegistration) list \<Rightarrow> string \<Rightarrow> val \<Rightarrow> (string \<times> ServiceRegistration) list" where
  "assign_instance m name v =
     map (\<lambda>(k, r). if k = name then (k, r\<lparr>instance' := v\<rparr>) else (k, r)) m"

subsection \<open>register\<close>

text \<open>\<open>extractDependencies\<close> ignores its argument.\<close>

definition extractDependencies :: "ServiceFactory \<Rightarrow> string list" where
  "extractDependencies f = []"

definition updateDependencyGraph :: "string \<Rightarrow> string list \<Rightarrow> state \<Rightarrow> state" where
  "updateDependencyGraph name deps s =
     s\<lparr>dependencyGraph := Map_set (dependencyGraph s) name
        \<lparr>node_name = name, node_dependencies = deps, visited = False, inStack = False\<rparr>\<rparr>"

text \<open>
  \<open>on('service.registered', listener)\<close> and \<open>emit('service.registered', payload)\<close> of the
  event emitter. \<open>emit\<close> calls the listeners one after the other in the order they were
  attached and catches nothing: the first listener that throws ends it, and the error
  leaves \<open>emit\<close>. \<open>None\<close> is a normal return.
\<close>

definition on_registered :: "listener \<Rightarrow> state \<Rightarrow> state" where
  "on_registered l s = s\<lparr>listeners := listeners s @ [l]\<rparr>"

fun call_listeners :: "listener list \<Rightarrow> error option" where
  "call_listeners [] = None"
| "call_listeners (ListenerOk # ls) = call_listeners ls"
| "call_listeners (ListenerThrows msg # ls) = Some (Thrown msg)"

text \<open>
  \<open>register\<close>. The \<open>emit\<close> is the last statement and stands in no \<open>try\<close>: when a listener
  throws, \<open>register\<close> throws after the registration has been stored.
\<close>

definition register :: "string \<Rightarrow> ServiceFactory \<Rightarrow> ServiceLifetime \<Rightarrow> state \<Rightarrow> unit result \<times> state" where
  "register name f lt s =
     (if Map_has (services s) name then (Inl (AlreadyRegistered name), s)
      else
        let deps = extractDependencies f;
            s1 = s\<lparr>services := Map_set (services s) name
                    \<lparr>factory = f, lifetime = lt, instance' = Undefined, dependencies = deps\<rparr>\<rparr>;
            s2 = updateDependencyGraph name deps s1;
            s3 = s2\<lparr>emitted := emitted s2 @ [(name, lt)]\<rparr>
        in (case call_listeners (listeners s3) of
              None \<Rightarrow> (Inr (), s3)
            | Some e \<Rightarrow> (Inl e, s3)))"

definition registerSingleton :: "string \<Rightarrow> ServiceFactory \<Rightarrow> state \<Rightarrow> unit result \<times> state" where
  "registerSingleton name f s = register name f Singleton s"

definition registerScoped :: "string \<Rightarrow> ServiceFactory \<Rightarrow> state \<Rightarrow> unit result \<times> state" where
  "registerScoped name f s = register name f Scoped s"

definition registerTransient :: "string \<Rightarrow> ServiceFactory \<Rightarrow> state \<Rightarrow> unit result \<times> state" where
  "registerTransient name f s = register name f Transient s"

definition isRegistered :: "state \<Rightarrow> string \<Rightarrow> bool" where
  "isRegistered s name = Map_has (services s) name"

definition getRegisteredServices :: "state \<Rightarrow> string list" where
  "getRegisteredServices s = map fst (services s)"

text \<open>
  \<open>getServiceInfo\<close>: \<open>None\<close> is the \<open>null\<close> of the source. A registration is an object, so
  \<open>!registration\<close> holds exactly when \<open>Map.get\<close> found nothing.
\<close>

definition getServiceInfo :: "state \<Rightarrow> string \<Rightarrow> (ServiceLifetime \<times> string list) option" where
  "getServiceInfo s name =
     (case Map_get (services s) name of
        None \<Rightarrow> None
      | Some registration \<Rightarrow> Some (lifetime registration, dependencies registration))"

subsection \<open>resolve\<close>

text \<open>
  Running a factory body. The argument \<open>rslv\<close> is the \<open>resolve\<close> method of the container
  the factory receives. \<open>None\<close> means that the nesting bound of \<open>resolve\<close> below was hit.
\<close>

primrec exec ::
  "(string \<Rightarrow> state \<Rightarrow> (val result \<times> state) option) \<Rightarrow> body \<Rightarrow> state \<Rightarrow> (val result \<times> state) option" where
  "exec rslv (Return v) s = Some (Inr v, s)"
| "exec rslv (Construct h) s = Some (Inr (Obj (length (heap s))), s\<lparr>heap := heap s @ [h]\<rparr>)"
| "exec rslv (Throw msg) s = Some (Inl (Thrown msg), s)"
| "exec rslv (Resolve dep rest) s =
     (case rslv dep s of
        None \<Rightarrow> None
      | Some (Inl e, s') \<Rightarrow> Some (Inl e, s')
      | Some (Inr v, s') \<Rightarrow> exec rslv rest s')"

text \<open>
  The body that the next invocation of a factory runs: a closure with state has been
  invoked as often as its number occurs in \<open>invoked\<close>.
\<close>

fun next_body :: "ServiceFactory \<Rightarrow> state \<Rightarrow> body" where
  "next_body (Stateless b) s = b"
| "next_body (Stateful c g) s = g (count_list (invoked s) c)"

text \<open>The state with the invocation of the factory registered under \<open>name\<close> logged.\<close>

fun logged :: "string \<Rightarrow> ServiceFactory \<Rightarrow> state \<Rightarrow> state" where
  "logged name (Stateless b) s = s\<lparr>calls := calls s @ [name]\<rparr>"
| "logged name (Stateful c g) s = s\<lparr>calls := calls s @ [name], invoked := invoked s @ [c]\<rparr>"

text \<open>
  \<open>createInstance\<close>: the \<open>try\<close> around the factory call wraps whatever the factory throws.
  The invocation is logged before the body runs.
\<close>

definition createInstance ::
  "(string \<Rightarrow> state \<Rightarrow> (val result \<times> state) option) \<Rightarrow> string \<Rightarrow> ServiceRegistration \<Rightarrow> state
     \<Rightarrow> (val result \<times> state) option" where
  "createInstance rslv name registration s =
     (case exec rslv (next_body (factory registration) s) (logged name (factory registration) s) of
        None \<Rightarrow> None
      | Some (Inl e, s') \<Rightarrow> Some (Inl (ConstructionFailed name e), s')
      | Some (Inr v, s') \<Rightarrow> Some (Inr v, s'))"

text \<open>
  \<open>resolve\<close>. A factory may call \<open>resolve\<close> again, so the function recurses through
  \<open>createInstance\<close>; the first argument bounds the depth of that nesting, and \<open>None\<close> is
  returned when the bound is exhausted. Lemma \<open>resolve_returns\<close> below shows that a bound
  above the number of registered services is never exhausted.

  In each branch the order of the source is kept: the name is added to the stack, the
  instance is created, and only when \<open>createInstance\<close> returned normally is the instance
  stored and the name deleted from the stack. There is no \<open>finally\<close>.
\<close>

fun resolve :: "nat \<Rightarrow> string \<Rightarrow> state \<Rightarrow> (val result \<times> state) option" where
  "resolve 0 name s = None"
| "resolve (Suc k) name s =
     (if \<not> Map_has (services s) name then Some (Inl (NotRegistered name), s)
      else if name \<in> set (resolutionStack s) then
        Some (Inl (CircularDependency (resolutionStack s @ [name])), s)
      else
        (case Map_get (services s) name of
           None \<Rightarrow> Some (Inl (NotRegistered name), s)
         | Some registration \<Rightarrow>
             (case lifetime registration of
                Singleton \<Rightarrow>
                  if \<not> truthy (instance' registration) then
                    (case createInstance (resolve k) name registration
                            (s\<lparr>resolutionStack := Set_add (resolutionStack s) name\<rparr>) of
                       None \<Rightarrow> None
                     | Some (Inl e, s') \<Rightarrow> Some (Inl e, s')
                     | Some (Inr v, s') \<Rightarrow>
                         Some (Inr v, s'\<lparr>services := assign_instance (services s') name v,
                                         resolutionStack := Set_delete (resolutionStack s') name\<rparr>))
                  else Some (Inr (instance' registration), s)
              | Scoped \<Rightarrow>
                  if \<not> Map_has (scopedInstances s) name then
                    (case createInstance (resolve k) name registration
                            (s\<lparr>resolutionStack := Set_add (resolutionStack s) name\<rparr>) of
                       None \<Rightarrow> None
                     | Some (Inl e, s') \<Rightarrow> Some (Inl e, s')
                     | Some (Inr v, s') \<Rightarrow>
                         Some (Inr v, s'\<lparr>scopedInstances := Map_set (scopedInstances s') name v,
                                         resolutionStack := Set_delete (resolutionStack s') name\<rparr>))
                  else
                    (case Map_get (scopedInstances s) name of
                       None \<Rightarrow> Some (Inr Undefined, s)
                     | Some v \<Rightarrow> Some (Inr v, s))
              | Transient \<Rightarrow>
                  (case createInstance (resolve k) name registration
                          (s\<lparr>resolutionStack := Set_add (resolutionStack s) name\<rparr>) of
                     None \<Rightarrow> None
                   | Some (Inl e, s') \<Rightarrow> Some (Inl e, s')
                   | Some (Inr v, s') \<Rightarrow>
                       Some (Inr v, s'\<lparr>resolutionStack := Set_delete (resolutionStack s') name\<rparr>)))))"

subsection \<open>dispose and clearScope\<close>

text \<open>
  The statement \<open>if (typeof instance.dispose === 'function') instance.dispose()\<close> for an
  instance that is neither \<open>undefined\<close> nor \<open>null\<close>. A primitive has no such property. A
  method that throws has been invoked, so it is logged too.
\<close>

fun dispose_if_function :: "val \<Rightarrow> state \<Rightarrow> unit result \<times> state" where
  "dispose_if_function (Obj r) s =
     (if r < length (heap s) then
        (case heap s ! r of
           NoDispose \<Rightarrow> (Inr (), s)
         | DisposeOk \<Rightarrow> (Inr (), s\<lparr>disposed := disposed s @ [r]\<rparr>)
         | DisposeThrows msg \<Rightarrow> (Inl (Thrown msg), s\<lparr>disposed := disposed s @ [r]\<rparr>))
      else (Inr (), s))"
| "dispose_if_function v s = (Inr (), s)"

text \<open>
  The first loop of \<open>dispose\<close>, over the entries of \<open>services\<close>: the test
  \<open>registration.instance &&\<close> skips every falsy instance.
\<close>

fun dispose_singletons :: "(string \<times> ServiceRegistration) list \<Rightarrow> state \<Rightarrow> unit result \<times> state" where
  "dispose_singletons [] s = (Inr (), s)"
| "dispose_singletons ((name, registration) # rest) s =
     (if truthy (instance' registration) then
        (case dispose_if_function (instance' registration) s of
           (Inl e, s') \<Rightarrow> (Inl e, s')
         | (Inr u, s') \<Rightarrow> dispose_singletons rest s')
      else dispose_singletons rest s)"

text \<open>
  The loop over \<open>scopedInstances\<close>, the same in \<open>dispose\<close> and in \<open>clearScope\<close>. There is no
  test of the instance before \<open>instance.dispose\<close> is read, so \<open>undefined\<close> and \<open>null\<close>
  raise a \<open>TypeError\<close>.
\<close>

fun dispose_scoped :: "(string \<times> val) list \<Rightarrow> state \<Rightarrow> unit result \<times> state" where
  "dispose_scoped [] s = (Inr (), s)"
| "dispose_scoped ((name, v) # rest) s =
     (if v = Undefined \<or> v = Null then (Inl TypeError, s)
      else
        (case dispose_if_function v s of
           (Inl e, s') \<Rightarrow> (Inl e, s')
         | (Inr u, s') \<Rightarrow> dispose_scoped rest s'))"

text \<open>
  \<open>dispose\<close>: the two iterations, then the three \<open>clear()\<close> calls and
  \<open>removeAllListeners()\<close>. \<open>resolutionStack\<close> is not cleared.
\<close>

definition dispose :: "state \<Rightarrow> unit result \<times> state" where
  "dispose s =
     (case dispose_singletons (services s) s of
        (Inl e, s1) \<Rightarrow> (Inl e, s1)
      | (Inr u, s1) \<Rightarrow>
          (case dispose_scoped (scopedInstances s1) s1 of
             (Inl e, s2) \<Rightarrow> (Inl e, s2)
           | (Inr u, s2) \<Rightarrow>
               (Inr (), s2\<lparr>services := [], scopedInstances := [], dependencyGraph := [],
                           listeners := []\<rparr>)))"

definition clearScope :: "state \<Rightarrow> unit result \<times> state" where
  "clearScope s =
     (case dispose_scoped (scopedInstances s) s of
        (Inl e, s1) \<Rightarrow> (Inl e, s1)
      | (Inr u, s1) \<Rightarrow> (Inr (), s1\<lparr>scopedInstances := []\<rparr>))"

text \<open>\<open>clearResolutionStack\<close>, private and called from nowhere in the class.\<close>

definition clearResolutionStack :: "state \<Rightarrow> state" where
  "clearResolutionStack s = s\<lparr>resolutionStack := []\<rparr>"

subsection \<open>Auxiliary notions\<close>

text \<open>
  The part of the registry that \<open>resolve\<close> never writes: the names in order, with the
  factory, the lifetime and the dependency list of each registration.
\<close>

definition skeleton ::
  "(string \<times> ServiceRegistration) list \<Rightarrow> (string \<times> ServiceFactory \<times> ServiceLifetime \<times> string list) list" where
  "skeleton m = map (\<lambda>(k, r). (k, factory r, lifetime r, dependencies r)) m"

text \<open>
  \<open>evolves s s'\<close>: what holds between the state before and the state after a resolution,
  failed or not. The registry keeps its skeleton, no name leaves the resolution stack, the
  heap does not shrink, and the fields that \<open>resolve\<close> does not mention are unchanged.
\<close>

definition evolves :: "state \<Rightarrow> state \<Rightarrow> bool" where
  "evolves s s' \<longleftrightarrow>
     skeleton (services s') = skeleton (services s) \<and>
     set (resolutionStack s) \<subseteq> set (resolutionStack s') \<and>
     length (heap s) \<le> length (heap s') \<and>
     dependencyGraph s' = dependencyGraph s \<and> emitted s' = emitted s \<and> disposed s' = disposed s"


text \<open>
  \<open>untouched name s s'\<close>: between \<open>s\<close> and \<open>s'\<close> the factory of \<open>name\<close> was not invoked and neither
  its registration nor its scoped entry was written.
\<close>

definition untouched :: "string \<Rightarrow> state \<Rightarrow> state \<Rightarrow> bool" where
  "untouched name s s' \<longleftrightarrow>
     count_list (calls s') name = count_list (calls s) name \<and>
     Map_get (services s') name = Map_get (services s) name \<and>
     Map_get (scopedInstances s') name = Map_get (scopedInstances s) name"

text \<open>The body ends in \<open>return new C()\<close>: a normal return yields a fresh object.\<close>

fun constructs :: "body \<Rightarrow> bool" where
  "constructs (Return v) = False"
| "constructs (Construct h) = True"
| "constructs (Throw msg) = False"
| "constructs (Resolve dep rest) = constructs rest"

text \<open>
  \<open>builds s name registration\<close>: the branch of the \<open>switch\<close> taken for this registration
  invokes the factory, that is, the service is Transient, or Scoped and absent from the
  scope, or a Singleton whose stored instance is falsy.
\<close>

definition builds :: "state \<Rightarrow> string \<Rightarrow> ServiceRegistration \<Rightarrow> bool" where
  "builds s name registration =
     (case lifetime registration of
        Singleton \<Rightarrow> \<not> truthy (instance' registration)
      | Scoped \<Rightarrow> \<not> Map_has (scopedInstances s) name
      | Transient \<Rightarrow> True)"

text \<open>
  The statements of a branch that follow a \<open>createInstance\<close> that returned \<open>v\<close>: the store
  into the cache of the lifetime and the \<open>delete\<close> on the resolution stack.
\<close>

definition store :: "ServiceLifetime \<Rightarrow> string \<Rightarrow> val \<Rightarrow> state \<Rightarrow> state" where
  "store lt name v s =
     (case lt of
        Singleton \<Rightarrow> s\<lparr>services := assign_instance (services s) name v,
                        resolutionStack := Set_delete (resolutionStack s) name\<rparr>
      | Scoped \<Rightarrow> s\<lparr>scopedInstances := Map_set (scopedInstances s) name v,
                     resolutionStack := Set_delete (resolutionStack s) name\<rparr>
      | Transient \<Rightarrow> s\<lparr>resolutionStack := Set_delete (resolutionStack s) name\<rparr>)"

text \<open>
  The store of a branch without the \<open>delete\<close>: what a successful resolution has written
  into the cache of the lifetime.
\<close>

definition cache :: "ServiceLifetime \<Rightarrow> string \<Rightarrow> val \<Rightarrow> state \<Rightarrow> state" where
  "cache lt name v s =
     (case lt of
        Singleton \<Rightarrow> s\<lparr>services := assign_instance (services s) name v\<rparr>
      | Scoped \<Rightarrow> s\<lparr>scopedInstances := Map_set (scopedInstances s) name v\<rparr>
      | Transient \<Rightarrow> s)"


definition scoped_demo :: state where
  "scoped_demo = snd (register ''S'' (Stateless (Construct DisposeOk)) Scoped new_container)"

definition falsy_demo :: "val \<Rightarrow> state" where
  "falsy_demo v = snd (register ''U'' (Stateless (Return v)) Scoped new_container)"

definition falsy_demo_resolved :: "val \<Rightarrow> state" where
  "falsy_demo_resolved v = (falsy_demo v)\<lparr>scopedInstances := [(''U'', v)], calls := [''U'']\<rparr>"



definition scoped_demo_resolved :: state where
  "scoped_demo_resolved =
     scoped_demo\<lparr>scopedInstances := [(''S'', Obj 0)], heap := [DisposeOk], calls := [''S'']\<rparr>"

definition scoped_demo_cleared :: state where
  "scoped_demo_cleared = scoped_demo_resolved\<lparr>scopedInstances := [], disposed := [0]\<rparr>"




text \<open>
  A factory with a counter of its own, \<open>() => { if (first) { first = false; throw new
  Error('boom') } return new C() }\<close>: it throws on its first invocation and constructs
  an object on every later one.
\<close>

definition fails_first :: ServiceFactory where
  "fails_first = Stateful 0 (\<lambda>k. if k = 0 then Throw ''boom'' else Construct NoDispose)"

definition flaky_demo :: "ServiceLifetime \<Rightarrow> state" where
  "flaky_demo lt = snd (register ''F'' fails_first lt new_container)"

text \<open>The state after the failed first resolution of \<open>F\<close>.\<close>

definition flaky_demo_failed :: "ServiceLifetime \<Rightarrow> state" where
  "flaky_demo_failed lt =
     (flaky_demo lt)\<lparr>resolutionStack := [''F''], calls := [''F''], invoked := [0]\<rparr>"

text \<open>A factory that counts its invocations and returns the count: \<open>() => k++\<close>.\<close>

definition counting :: ServiceFactory where
  "counting = Stateful 0 (\<lambda>k. Return (Num (int k)))"

definition counting_demo :: state where
  "counting_demo = snd (registerSingleton ''K'' counting new_container)"

definition counting_demo_once :: state where
  "counting_demo_once =
     counting_demo\<lparr>services := assign_instance (services counting_demo) ''K'' (Num 0),
       calls := [''K''], invoked := [0]\<rparr>"

definition counting_demo_twice :: state where
  "counting_demo_twice =
     counting_demo\<lparr>services := assign_instance (services counting_demo) ''K'' (Num 1),
       calls := [''K'', ''K''], invoked := [0, 0]\<rparr>"

text \<open>
  The references, in order, of the values whose \<open>dispose\<close> property is a function: the
  \<open>dispose\<close> methods that an iteration over these values invokes, one entry per value,
  when it reaches the end.
\<close>

fun disposable :: "state \<Rightarrow> val list \<Rightarrow> nat list" where
  "disposable s [] = []"
| "disposable s (Obj r # vs) =
     (if r < length (heap s) \<and> heap s ! r \<noteq> NoDispose then r # disposable s vs
      else disposable s vs)"
| "disposable s (v # vs) = disposable s vs"

text \<open>What the \<open>dispose\<close> method of a value throws, if the value has one and it throws.\<close>

fun hook_error :: "state \<Rightarrow> val \<Rightarrow> error option" where
  "hook_error s (Obj r) =
     (if r < length (heap s) then
        (case heap s ! r of DisposeThrows msg \<Rightarrow> Some (Thrown msg) | NoDispose \<Rightarrow> None
         | DisposeOk \<Rightarrow> None)
      else None)"
| "hook_error s v = None"

text \<open>
  Entries of the registry none of whose instances has a \<open>dispose\<close> method that throws, and
  entries of the scoped cache none of whose instances has one that throws or is
  \<open>undefined\<close> or \<open>null\<close>.
\<close>

definition singletons_quiet :: "state \<Rightarrow> (string \<times> ServiceRegistration) list \<Rightarrow> bool" where
  "singletons_quiet s m = list_all (\<lambda>p. hook_error s (instance' (snd p)) = None) m"

definition scope_quiet :: "state \<Rightarrow> (string \<times> val) list \<Rightarrow> bool" where
  "scope_quiet s m =
     list_all (\<lambda>p. hook_error s (snd p) = None \<and> snd p \<noteq> Undefined \<and> snd p \<noteq> Null) m"

text \<open>The instances held by a list of registrations.\<close>

definition instances :: "(string \<times> ServiceRegistration) list \<Rightarrow> val list" where
  "instances m = map (\<lambda>p. instance' (snd p)) m"

text \<open>
  Two scoped services, each resolved once: the \<open>dispose\<close> method of the instance of \<open>A\<close>
  throws, the one of the instance of \<open>B\<close> returns.
\<close>

definition teardown_registered :: state where
  "teardown_registered =
     snd (registerScoped ''B'' (Stateless (Construct DisposeOk))
       (snd (registerScoped ''A'' (Stateless (Construct (DisposeThrows ''fail''))) new_container)))"

definition teardown_half :: state where
  "teardown_half =
     teardown_registered\<lparr>scopedInstances := [(''A'', Obj 0)], heap := [DisposeThrows ''fail''],
       calls := [''A'']\<rparr>"

definition teardown_demo :: state where
  "teardown_demo =
     teardown_registered\<lparr>scopedInstances := [(''A'', Obj 0), (''B'', Obj 1)],
       heap := [DisposeThrows ''fail'', DisposeOk], calls := [''A'', ''B'']\<rparr>"

text \<open>Two singletons, each resolved once; the \<open>dispose\<close> method of the first instance throws.\<close>

definition singletons_registered :: state where
  "singletons_registered =
     snd (registerSingleton ''B'' (Stateless (Construct DisposeOk))
       (snd (registerSingleton ''A'' (Stateless (Construct (DisposeThrows ''fail''))) new_container)))"

definition singletons_half :: state where
  "singletons_half =
     singletons_registered\<lparr>services := assign_instance (services singletons_registered) ''A'' (Obj 0),
       heap := [DisposeThrows ''fail''], calls := [''A'']\<rparr>"

definition singletons_demo :: state where
  "singletons_demo =
     singletons_registered\<lparr>services :=
         assign_instance (assign_instance (services singletons_registered) ''A'' (Obj 0)) ''B'' (Obj 1),
       heap := [DisposeThrows ''fail'', DisposeOk], calls := [''A'', ''B'']\<rparr>"

text \<open>The container \<open>scoped_demo_resolved\<close> after \<open>dispose\<close>.\<close>

definition disposed_demo :: state where
  "disposed_demo =
     scoped_demo_resolved\<lparr>services := [], scopedInstances := [], dependencyGraph := [],
       disposed := [0]\<rparr>"

text \<open>
  The cycle path in the words of the specification: the names from the first occurrence
  of \<open>name\<close> on the stack through the re-entry.
\<close>

definition spec_cycle_path :: "string list \<Rightarrow> string \<Rightarrow> string list" where
  "spec_cycle_path stack name = dropWhile (\<lambda>x. x \<noteq> name) stack @ [name]"

text \<open>
  The factories of a dependency chain. \<open>resolves_first f next\<close>: the factory is
  \<open>(c) => { c.resolve(next); ... }\<close>. \<open>is_link f next\<close>: it is
  \<open>(c) => { c.resolve(next); return new C() }\<close>. \<open>is_leaf f\<close>: it is \<open>() => new C()\<close>.
\<close>

fun resolves_first :: "ServiceFactory \<Rightarrow> string \<Rightarrow> bool" where
  "resolves_first (Stateless (Resolve dep rest)) next = (dep = next)"
| "resolves_first f next = False"

fun is_link :: "ServiceFactory \<Rightarrow> string \<Rightarrow> bool" where
  "is_link (Stateless (Resolve dep (Construct h))) next = (dep = next)"
| "is_link f next = False"

fun is_leaf :: "ServiceFactory \<Rightarrow> bool" where
  "is_leaf (Stateless (Construct h)) = True"
| "is_leaf f = False"

text \<open>
  \<open>cyclic_chain s ns target\<close>: the names \<open>ns\<close> are registered in \<open>s\<close> and not cached, no name
  occurs twice, the factory of each name begins by resolving its successor in the list,
  and the factory of the last name begins by resolving \<open>target\<close>.
\<close>

fun cyclic_chain :: "state \<Rightarrow> string list \<Rightarrow> string \<Rightarrow> bool" where
  "cyclic_chain s [] target = False"
| "cyclic_chain s [n] target =
     (case Map_get (services s) n of
        None \<Rightarrow> False
      | Some reg \<Rightarrow> builds s n reg \<and> resolves_first (factory reg) target)"
| "cyclic_chain s (n # m # ns) target =
     (case Map_get (services s) n of
        None \<Rightarrow> False
      | Some reg \<Rightarrow>
          builds s n reg \<and> n \<notin> set (m # ns) \<and> resolves_first (factory reg) m \<and>
          cyclic_chain s (m # ns) target)"

text \<open>
  \<open>acyclic_chain s ns\<close>: the names \<open>ns\<close> are registered in \<open>s\<close> and not cached, no name occurs
  twice, the factory of each name resolves its successor in the list and then constructs
  an object, and the factory of the last name constructs an object.
\<close>

fun acyclic_chain :: "state \<Rightarrow> string list \<Rightarrow> bool" where
  "acyclic_chain s [] = False"
| "acyclic_chain s [n] =
     (case Map_get (services s) n of
        None \<Rightarrow> False
      | Some reg \<Rightarrow> builds s n reg \<and> is_leaf (factory reg))"
| "acyclic_chain s (n # m # ns) =
     (case Map_get (services s) n of
        None \<Rightarrow> False
      | Some reg \<Rightarrow>
          builds s n reg \<and> n \<notin> set (m # ns) \<and> is_link (factory reg) m \<and>
          acyclic_chain s (m # ns))"

text \<open>The error as \<open>createInstance\<close> wraps it on the way out of the factories of \<open>ns\<close>.\<close>

fun wrapped :: "string list \<Rightarrow> error \<Rightarrow> error" where
  "wrapped [] e = e"
| "wrapped (n # ns) e = ConstructionFailed n (wrapped ns e)"

definition link_to :: "string \<Rightarrow> ServiceFactory" where
  "link_to next = Stateless (Resolve next (Construct NoDispose))"

text \<open>\<open>A\<close> resolves \<open>B\<close>, \<open>B\<close> resolves \<open>C\<close>, and \<open>C\<close> resolves \<open>B\<close> again.\<close>

definition cycle_demo :: state where
  "cycle_demo =
     snd (register ''C'' (link_to ''B'') Transient
       (snd (register ''B'' (link_to ''C'') Transient
         (snd (register ''A'' (link_to ''B'') Transient new_container)))))"

definition cycle_demo_entered :: state where
  "cycle_demo_entered =
     cycle_demo\<lparr>resolutionStack := [''A'', ''B'', ''C''], calls := calls cycle_demo @ [''A'', ''B'', ''C'']\<rparr>"

text \<open>\<open>A\<close> resolves \<open>B\<close>, \<open>B\<close> resolves \<open>C\<close>, and \<open>C\<close> depends on nothing.\<close>

definition chain_demo :: state where
  "chain_demo =
     snd (register ''C'' (Stateless (Construct NoDispose)) Transient
       (snd (register ''B'' (link_to ''C'') Transient
         (snd (register ''A'' (link_to ''B'') Transient new_container)))))"

definition chain_demo_resolved :: state where
  "chain_demo_resolved =
     chain_demo\<lparr>heap := [NoDispose, NoDispose, NoDispose], calls := [''A'', ''B'', ''C'']\<rparr>"

text \<open>
  \<open>G\<close> resolves \<open>F\<close>, whose factory \<open>fails_first\<close> has failed once: the state after the
  failed resolution of \<open>F\<close>.
\<close>

definition stale_demo :: state where
  "stale_demo = snd (register ''G'' (link_to ''F'') Transient (flaky_demo Transient))"

definition stale_demo_failed :: state where
  "stale_demo_failed = stale_demo\<lparr>resolutionStack := [''F''], calls := [''F''], invoked := [0]\<rparr>"

text \<open>
  The state that \<open>clearScope\<close> returns when no \<open>dispose\<close> method throws: the scoped cache
  is empty and the methods of the scoped instances are logged.
\<close>

definition cleared_scope :: "state \<Rightarrow> state" where
  "cleared_scope s =
     s\<lparr>scopedInstances := [],
       disposed := disposed s @ disposable s (map snd (scopedInstances s))\<rparr>"




section \<open>Properties\<close>

subsection \<open>Maps and sets\<close>

lemma map_of_Map_set: "map_of (Map_set m k v) k' = (if k' = k then Some v else map_of m k')"
  by (induction m) auto

lemma Map_get_Map_set: "Map_get (Map_set m k v) k' = (if k' = k then Some v else Map_get m k')"
  by (simp add: Map_get_def map_of_Map_set)

lemma Map_has_Map_set: "Map_has (Map_set m k v) k' = (k' = k \<or> Map_has m k')"
  by (simp add: Map_has_def map_of_Map_set)

subsection \<open>Registration and lookup\<close>

text \<open>
  C10: \<open>getServiceInfo\<close> has no failing branch. It returns \<open>null\<close> exactly when
  \<open>isRegistered\<close> is false, and the lifetime and the dependency list of the registration
  when the name is registered.
\<close>

theorem getServiceInfo_null_iff_unregistered:
  "(getServiceInfo s name = None) = (\<not> isRegistered s name) \<and>
   (\<forall>registration. Map_get (services s) name = Some registration \<longrightarrow>
      getServiceInfo s name = Some (lifetime registration, dependencies registration))"
  by (auto simp: getServiceInfo_def isRegistered_def Map_has_def Map_get_def split: option.splits)

theorem getServiceInfo_null_iff_unregistered_witness:
  "getServiceInfo (snd (register ''A'' (Stateless (Return Null)) Singleton new_container)) ''A''
     = Some (Singleton, []) \<and>
   (getServiceInfo new_container ''A'' = None) = (\<not> isRegistered new_container ''A'')"
proof -
  let ?s = "snd (register ''A'' (Stateless (Return Null)) Singleton new_container)"
  let ?r = "\<lparr>factory = Stateless (Return Null), lifetime = Singleton, instance' = Undefined,
             dependencies = []\<rparr>"
  have g: "Map_get (services ?s) ''A'' = Some ?r"
    by (simp add: register_def new_container_def Map_has_def Map_get_def
        extractDependencies_def updateDependencyGraph_def)
  from getServiceInfo_null_iff_unregistered [of ?s "''A''"] g
  have "getServiceInfo ?s ''A'' = Some (lifetime ?r, dependencies ?r)" by blast
  moreover from getServiceInfo_null_iff_unregistered [of new_container "''A''"]
  have "(getServiceInfo new_container ''A'' = None) = (\<not> isRegistered new_container ''A'')" by blast
  ultimately show ?thesis by simp
qed

text \<open>
  C6, as stated, makes \<open>register\<close> fail exactly on an empty or an already registered name.
  The source tests \<open>services.has(name)\<close> and nothing else, so on a new container the empty
  name is accepted. And a name that is neither empty nor registered is refused when a
  listener of \<open>service.registered\<close> throws: the error leaves \<open>emit\<close>, the last statement of
  \<open>register\<close>, after the registration has been stored.
\<close>

theorem register_failure_counterexample:
  "fst (register [] (Stateless (Return Null)) Transient new_container) = Inr () \<and>
   \<not> isRegistered new_container [] \<and>
   \<not> isRegistered (on_registered (ListenerThrows ''stop'') new_container) ''A'' \<and>
   fst (register ''A'' (Stateless (Return Null)) Transient
          (on_registered (ListenerThrows ''stop'') new_container)) = Inl (Thrown ''stop'') \<and>
   isRegistered (snd (register ''A'' (Stateless (Return Null)) Transient
          (on_registered (ListenerThrows ''stop'') new_container))) ''A''"
  by (simp add: register_def new_container_def Map_has_def isRegistered_def on_registered_def
      extractDependencies_def updateDependencyGraph_def)

text \<open>
  C6, amended: \<open>register\<close> fails if and only if the name is already registered or a
  listener of \<open>service.registered\<close> throws. For a registered name the failure is the
  already-registered error for that name and leaves the whole state as it was, so the
  first registration stays in place. For a name not yet registered, the empty name
  included, the new registration is stored and the registration of no other name
  changes; the call then returns, or fails with the error of the first listener that
  throws.
\<close>

theorem register_fails_iff_registered:
  "isl (fst (register name f lt s))
     = (isRegistered s name \<or> call_listeners (listeners s) \<noteq> None) \<and>
   (isRegistered s name \<longrightarrow> register name f lt s = (Inl (AlreadyRegistered name), s)) \<and>
   (\<not> isRegistered s name \<longrightarrow>
      fst (register name f lt s)
        = (case call_listeners (listeners s) of None \<Rightarrow> Inr () | Some e \<Rightarrow> Inl e) \<and>
      Map_get (services (snd (register name f lt s))) name
        = Some \<lparr>factory = f, lifetime = lt, instance' = Undefined, dependencies = []\<rparr> \<and>
      (\<forall>other. other \<noteq> name \<longrightarrow>
         Map_get (services (snd (register name f lt s))) other = Map_get (services s) other))"
  by (cases "call_listeners (listeners s)")
     (simp_all add: register_def isRegistered_def Let_def extractDependencies_def
        updateDependencyGraph_def Map_get_Map_set)

theorem register_fails_iff_registered_witness:
  "register ''A'' (Stateless (Return (Num 2))) Scoped
     (snd (register ''A'' (Stateless (Return (Num 1))) Singleton new_container))
   = (Inl (AlreadyRegistered ''A''),
      snd (register ''A'' (Stateless (Return (Num 1))) Singleton new_container)) \<and>
   fst (register ''A'' (Stateless (Return (Num 1))) Singleton new_container) = Inr () \<and>
   fst (register ''A'' (Stateless (Return (Num 1))) Singleton
          (on_registered (ListenerThrows ''stop'') new_container)) = Inl (Thrown ''stop'')"
proof -
  let ?s = "snd (register ''A'' (Stateless (Return (Num 1))) Singleton new_container)"
  let ?l = "on_registered (ListenerThrows ''stop'') new_container"
  have a: "isRegistered ?s ''A''"
    by (simp add: register_def new_container_def Map_has_def isRegistered_def
        extractDependencies_def updateDependencyGraph_def)
  have b: "\<not> isRegistered new_container ''A''"
    by (simp add: new_container_def Map_has_def isRegistered_def)
  have c: "\<not> isRegistered ?l ''A''"
    by (simp add: new_container_def Map_has_def isRegistered_def on_registered_def)
  have quiet: "call_listeners (listeners new_container) = None"
    by (simp add: new_container_def)
  have loud: "call_listeners (listeners ?l) = Some (Thrown ''stop'')"
    by (simp add: new_container_def on_registered_def)
  from register_fails_iff_registered [of "''A''" "Stateless (Return (Num 2))" Scoped ?s] a
  have "register ''A'' (Stateless (Return (Num 2))) Scoped ?s = (Inl (AlreadyRegistered ''A''), ?s)"
    by blast
  moreover from register_fails_iff_registered [of "''A''" "Stateless (Return (Num 1))" Singleton new_container] b
  have "fst (register ''A'' (Stateless (Return (Num 1))) Singleton new_container)
      = (case call_listeners (listeners new_container) of None \<Rightarrow> Inr () | Some e \<Rightarrow> Inl e)"
    by blast
  moreover from register_fails_iff_registered [of "''A''" "Stateless (Return (Num 1))" Singleton ?l] c
  have "fst (register ''A'' (Stateless (Return (Num 1))) Singleton ?l)
      = (case call_listeners (listeners ?l) of None \<Rightarrow> Inr () | Some e \<Rightarrow> Inl e)"
    by blast
  ultimately show ?thesis using quiet loud by simp
qed

subsection \<open>What a resolution preserves\<close>

lemma logged_fields [simp]:
  "services (logged name f s) = services s"
  "scopedInstances (logged name f s) = scopedInstances s"
  "dependencyGraph (logged name f s) = dependencyGraph s"
  "resolutionStack (logged name f s) = resolutionStack s"
  "listeners (logged name f s) = listeners s"
  "emitted (logged name f s) = emitted s"
  "heap (logged name f s) = heap s"
  "disposed (logged name f s) = disposed s"
  "calls (logged name f s) = calls s @ [name]"
  by (cases f; simp)+

lemma next_body_frame [simp]:
  "next_body f (s\<lparr>resolutionStack := st\<rparr>) = next_body f s"
  by (cases f) simp_all

lemma evolves_refl: "evolves s s"
  by (simp add: evolves_def)

lemma evolves_trans: "evolves s t \<Longrightarrow> evolves t u \<Longrightarrow> evolves s u"
  by (auto simp: evolves_def)

lemma skeleton_assign_instance: "skeleton (assign_instance m name v) = skeleton m"
  by (induction m) (auto simp: skeleton_def assign_instance_def)

lemma map_of_skeleton:
  "map_of (skeleton m) k = map_option (\<lambda>r. (factory r, lifetime r, dependencies r)) (map_of m k)"
  by (induction m) (auto simp: skeleton_def)

lemma skeleton_Map_has: "skeleton m' = skeleton m \<Longrightarrow> Map_has m' k = Map_has m k"
  using map_of_skeleton [of m k] map_of_skeleton [of m' k]
  by (cases "map_of m k"; cases "map_of m' k") (auto simp: Map_has_def)

lemma exec_evolves:
  assumes sub: "\<forall>d s r s'. rslv d s = Some (r, s') \<longrightarrow> evolves s s'"
  shows "exec rslv b s = Some (r, s') \<Longrightarrow> evolves s s'"
proof (induction b arbitrary: s)
  case (Return v)
  then show ?case by (simp add: evolves_refl)
next
  case (Construct h)
  then show ?case by (auto simp: evolves_def)
next
  case (Throw msg)
  then show ?case by (simp add: evolves_refl)
next
  case (Resolve dep rest)
  from Resolve.prems obtain r1 t where step: "rslv dep s = Some (r1, t)"
    by (cases "rslv dep s") auto
  then have ev: "evolves s t" using sub by blast
  show ?case
  proof (cases r1)
    case (Inl e)
    with Resolve.prems step ev show ?thesis by simp
  next
    case (Inr v)
    with Resolve.prems step have "exec rslv rest t = Some (r, s')" by simp
    then have "evolves t s'" by (rule Resolve.IH)
    with ev show ?thesis by (rule evolves_trans)
  qed
qed

lemma createInstance_evolves:
  assumes sub: "\<forall>d s r s'. rslv d s = Some (r, s') \<longrightarrow> evolves s s'"
    and run: "createInstance rslv name reg s = Some (r, s')"
  shows "evolves s s'"
proof -
  from run obtain r0 where
    "exec rslv (next_body (factory reg) s) (logged name (factory reg) s) = Some (r0, s')"
    by (auto simp: createInstance_def split: option.splits sum.splits)
  then have "evolves (logged name (factory reg) s) s'"
    by (rule exec_evolves [OF sub])
  then show ?thesis by (simp add: evolves_def)
qed

lemma resolve_evolves: "resolve k name s = Some (r, s') \<Longrightarrow> evolves s s'"
proof (induction k arbitrary: name s r s')
  case 0
  then show ?case by simp
next
  case (Suc k)
  have IH: "\<forall>d s r s'. resolve k d s = Some (r, s') \<longrightarrow> evolves s s'"
    using Suc.IH by blast
  have sub: "\<And>reg t r t'. createInstance (resolve k) name reg t = Some (r, t') \<Longrightarrow> evolves t t'"
    by (rule createInstance_evolves [OF IH])
  show ?case
  proof (cases "Map_has (services s) name \<and> name \<notin> set (resolutionStack s)")
    case False
    with Suc.prems show ?thesis by (auto simp: evolves_refl split: if_splits)
  next
    case True
    then obtain reg where reg: "Map_get (services s) name = Some reg"
      by (auto simp: Map_has_def Map_get_def)
    let ?s1 = "s\<lparr>resolutionStack := Set_add (resolutionStack s) name\<rparr>"
    show ?thesis
    proof (cases "createInstance (resolve k) name reg ?s1")
      case None
      with Suc.prems True reg show ?thesis
        by (auto simp: evolves_refl split: ServiceLifetime.splits if_splits option.splits)
    next
      case (Some p)
      obtain r1 t where p: "p = (r1, t)" by (cases p)
      have ev: "evolves ?s1 t" using sub Some p by blast
      from Suc.prems True reg Some p ev show ?thesis
        by (auto simp: evolves_def Set_add_def Set_delete_def skeleton_assign_instance
            split: ServiceLifetime.splits if_splits option.splits sum.splits)
    qed
  qed
qed

subsection \<open>Resolution returns\<close>












subsection \<open>A larger nesting bound gives the same result\<close>

lemma exec_more_fuel:
  assumes sub: "\<forall>d s p. rslv d s = Some p \<longrightarrow> rslv' d s = Some p"
  shows "exec rslv b s = Some p \<Longrightarrow> exec rslv' b s = Some p"
proof (induction b arbitrary: s)
  case (Resolve dep rest)
  from Resolve.prems obtain r1 t where step: "rslv dep s = Some (r1, t)"
    by (cases "rslv dep s") auto
  then have step': "rslv' dep s = Some (r1, t)" using sub by blast
  show ?case
  proof (cases r1)
    case (Inl e)
    with Resolve.prems step step' show ?thesis by auto
  next
    case (Inr v)
    with Resolve.prems step have "exec rslv rest t = Some p" by simp
    then have "exec rslv' rest t = Some p" by (rule Resolve.IH)
    with step' Inr show ?thesis by simp
  qed
qed simp_all

lemma createInstance_more_fuel:
  assumes sub: "\<forall>d s p. rslv d s = Some p \<longrightarrow> rslv' d s = Some p"
    and run: "createInstance rslv name reg s = Some p"
  shows "createInstance rslv' name reg s = Some p"
proof -
  let ?b = "next_body (factory reg) s"
  let ?s = "logged name (factory reg) s"
  from run obtain q where q: "exec rslv ?b ?s = Some q"
    by (auto simp: createInstance_def split: option.splits)
  then have "exec rslv' ?b ?s = Some q" by (rule exec_more_fuel [OF sub])
  with q run show ?thesis by (simp add: createInstance_def)
qed

lemma resolve_Suc_fuel: "resolve k name s = Some p \<Longrightarrow> resolve (Suc k) name s = Some p"
proof (induction k arbitrary: name s p)
  case 0
  then show ?case by simp
next
  case (Suc k)
  have sub: "\<forall>d s p. resolve k d s = Some p \<longrightarrow> resolve (Suc k) d s = Some p"
    using Suc.IH by blast
  show ?case
  proof (cases "Map_has (services s) name \<and> name \<notin> set (resolutionStack s)")
    case False
    with Suc.prems show ?thesis by (auto split: if_splits)
  next
    case True
    then obtain reg where reg: "Map_get (services s) name = Some reg"
      by (auto simp: Map_has_def Map_get_def)
    let ?s1 = "s\<lparr>resolutionStack := Set_add (resolutionStack s) name\<rparr>"
    show ?thesis
    proof (cases "createInstance (resolve k) name reg ?s1")
      case None
      with Suc.prems True reg show ?thesis
        by (auto split: ServiceLifetime.splits if_splits option.splits)
    next
      case (Some q)
      then have q': "createInstance (resolve (Suc k)) name reg ?s1 = Some q"
        by (rule createInstance_more_fuel [OF sub])
      have "resolve (Suc (Suc k)) name s = resolve (Suc k) name s"
        using True reg Some q' by (simp split: ServiceLifetime.splits)
      with Suc.prems show ?thesis by simp
    qed
  qed
qed

lemma resolve_add_fuel: "resolve k name s = Some p \<Longrightarrow> resolve (k + j) name s = Some p"
proof (induction j)
  case 0
  then show ?case by simp
next
  case (Suc j)
  then have "resolve (k + j) name s = Some p" by blast
  then have "resolve (Suc (k + j)) name s = Some p" by (rule resolve_Suc_fuel)
  then show ?case by (simp del: resolve.simps)
qed

lemma resolve_more_fuel: "resolve k name s = Some p \<Longrightarrow> k \<le> k' \<Longrightarrow> resolve k' name s = Some p"
  using resolve_add_fuel [of k name s p "k' - k"] by simp

subsection \<open>Names under construction\<close>

text \<open>
  While a name is on the resolution stack, no resolution invokes its factory or writes
  its cache entries: a nested \<open>resolve\<close> of that name fails at the cycle check, and one of
  any other name writes only the entries of that other name.
\<close>

lemma untouched_refl: "untouched name s s"
  by (simp add: untouched_def)

lemma untouched_trans: "untouched name s t \<Longrightarrow> untouched name t u \<Longrightarrow> untouched name s u"
  by (simp add: untouched_def)

lemma Map_get_assign_instance_other:
  "k \<noteq> name \<Longrightarrow> Map_get (assign_instance m name v) k = Map_get m k"
  by (induction m) (auto simp: Map_get_def assign_instance_def)

lemma exec_untouched:
  assumes sub: "\<forall>d s r s'. name \<in> set (resolutionStack s) \<longrightarrow> rslv d s = Some (r, s')
                  \<longrightarrow> untouched name s s' \<and> name \<in> set (resolutionStack s')"
  shows "name \<in> set (resolutionStack s) \<Longrightarrow> exec rslv b s = Some (r, s')
           \<Longrightarrow> untouched name s s' \<and> name \<in> set (resolutionStack s')"
proof (induction b arbitrary: s)
  case (Return v)
  then show ?case by (simp add: untouched_refl)
next
  case (Construct h)
  then show ?case by (auto simp: untouched_def)
next
  case (Throw msg)
  then show ?case by (simp add: untouched_refl)
next
  case (Resolve dep rest)
  from Resolve.prems obtain r1 t where step: "rslv dep s = Some (r1, t)"
    by (cases "rslv dep s") auto
  then have u: "untouched name s t \<and> name \<in> set (resolutionStack t)"
    using sub Resolve.prems(1) by blast
  show ?case
  proof (cases r1)
    case (Inl e)
    with Resolve.prems step u show ?thesis by simp
  next
    case (Inr v)
    with Resolve.prems step have "exec rslv rest t = Some (r, s')" by simp
    with u have "untouched name t s' \<and> name \<in> set (resolutionStack s')"
      using Resolve.IH by blast
    with u show ?thesis by (blast intro: untouched_trans)
  qed
qed

lemma createInstance_untouched:
  assumes sub: "\<forall>d s r s'. name \<in> set (resolutionStack s) \<longrightarrow> rslv d s = Some (r, s')
                  \<longrightarrow> untouched name s s' \<and> name \<in> set (resolutionStack s')"
    and "name \<in> set (resolutionStack s)" and "other \<noteq> name"
    and run: "createInstance rslv other reg s = Some (r, s')"
  shows "untouched name s s' \<and> name \<in> set (resolutionStack s')"
proof -
  let ?s = "logged other (factory reg) s"
  from run obtain r0 where "exec rslv (next_body (factory reg) s) ?s = Some (r0, s')"
    by (auto simp: createInstance_def split: option.splits sum.splits)
  moreover have "name \<in> set (resolutionStack ?s)" using assms(2) by simp
  ultimately have "untouched name ?s s' \<and> name \<in> set (resolutionStack s')"
    using exec_untouched [OF sub] by blast
  with assms(3) show ?thesis by (simp add: untouched_def)
qed

lemma resolve_untouched:
  "name \<in> set (resolutionStack s) \<Longrightarrow> resolve k other s = Some (r, s')
     \<Longrightarrow> untouched name s s' \<and> name \<in> set (resolutionStack s')"
proof (induction k arbitrary: other s r s')
  case 0
  then show ?case by simp
next
  case (Suc k)
  have sub: "\<forall>d s r s'. name \<in> set (resolutionStack s) \<longrightarrow> resolve k d s = Some (r, s')
                  \<longrightarrow> untouched name s s' \<and> name \<in> set (resolutionStack s')"
    using Suc.IH by blast
  show ?case
  proof (cases "Map_has (services s) other \<and> other \<notin> set (resolutionStack s)")
    case False
    with Suc.prems show ?thesis by (auto simp: untouched_refl split: if_splits)
  next
    case True
    with Suc.prems(1) have neq: "other \<noteq> name" by auto
    from True obtain reg where reg: "Map_get (services s) other = Some reg"
      by (auto simp: Map_has_def Map_get_def)
    let ?s1 = "s\<lparr>resolutionStack := Set_add (resolutionStack s) other\<rparr>"
    have in1: "name \<in> set (resolutionStack ?s1)" using Suc.prems(1) by (simp add: Set_add_def)
    show ?thesis
    proof (cases "createInstance (resolve k) other reg ?s1")
      case None
      with Suc.prems True reg show ?thesis
        by (auto simp: untouched_refl split: ServiceLifetime.splits if_splits option.splits)
    next
      case (Some q)
      obtain r1 t where q: "q = (r1, t)" by (cases q)
      have "untouched name ?s1 t \<and> name \<in> set (resolutionStack t)"
        using createInstance_untouched [OF sub in1 neq] Some q by blast
      then have u: "untouched name s t" and nt: "name \<in> set (resolutionStack t)"
        by (simp_all add: untouched_def)
      from Suc.prems True reg Some q u nt neq show ?thesis
        by (auto simp: untouched_def Set_delete_def Map_get_assign_instance_other Map_get_Map_set
            split: ServiceLifetime.splits if_splits option.splits sum.splits)
    qed
  qed
qed

subsection \<open>The two ways through resolve\<close>

lemma Map_get_Some_has: "Map_get m k = Some v \<Longrightarrow> Map_has m k"
  by (simp add: Map_get_def Map_has_def)

lemma resolve_builds:
  assumes "Map_get (services s) name = Some reg" and "name \<notin> set (resolutionStack s)"
    and "builds s name reg"
  shows "resolve (Suc k) name s =
     (case createInstance (resolve k) name reg (s\<lparr>resolutionStack := Set_add (resolutionStack s) name\<rparr>) of
        None \<Rightarrow> None
      | Some (Inl e, s') \<Rightarrow> Some (Inl e, s')
      | Some (Inr v, s') \<Rightarrow> Some (Inr v, store (lifetime reg) name v s'))"
  using assms Map_get_Some_has [OF assms(1)]
  by (cases "lifetime reg") (auto simp: builds_def store_def split: option.splits sum.splits)

lemma resolve_cached:
  assumes "Map_get (services s) name = Some reg" and "name \<notin> set (resolutionStack s)"
    and "\<not> builds s name reg"
  shows "resolve (Suc k) name s =
     Some (Inr (case lifetime reg of Singleton \<Rightarrow> instance' reg
                | Scoped \<Rightarrow> the (Map_get (scopedInstances s) name)
                | Transient \<Rightarrow> Undefined), s)"
  using assms Map_get_Some_has [OF assms(1)]
  by (cases "lifetime reg") (auto simp: builds_def Map_has_def Map_get_def split: option.splits)

lemma createInstance_self:
  assumes "name \<in> set (resolutionStack s)"
    and run: "createInstance (resolve k) name reg s = Some (r, s')"
  shows "count_list (calls s') name = Suc (count_list (calls s) name) \<and>
         Map_get (services s') name = Map_get (services s) name \<and>
         Map_get (scopedInstances s') name = Map_get (scopedInstances s) name \<and>
         name \<in> set (resolutionStack s')"
proof -
  let ?s = "logged name (factory reg) s"
  have sub: "\<forall>d s r s'. name \<in> set (resolutionStack s) \<longrightarrow> resolve k d s = Some (r, s')
                  \<longrightarrow> untouched name s s' \<and> name \<in> set (resolutionStack s')"
    using resolve_untouched by blast
  from run obtain r0 where "exec (resolve k) (next_body (factory reg) s) ?s = Some (r0, s')"
    by (auto simp: createInstance_def split: option.splits sum.splits)
  moreover have "name \<in> set (resolutionStack ?s)" using assms(1) by simp
  ultimately have "untouched name ?s s' \<and> name \<in> set (resolutionStack s')"
    using exec_untouched [OF sub] by blast
  then show ?thesis by (simp add: untouched_def)
qed

lemma exec_constructs:
  assumes ev: "\<forall>d s r s'. rslv d s = Some (r, s') \<longrightarrow> evolves s s'"
  shows "exec rslv b s = Some (Inr v, s') \<Longrightarrow> constructs b
           \<Longrightarrow> \<exists>a. v = Obj a \<and> length (heap s) \<le> a \<and> a < length (heap s')"
proof (induction b arbitrary: s)
  case (Resolve dep rest)
  from Resolve.prems obtain r1 t where step: "rslv dep s = Some (r1, t)"
    by (cases "rslv dep s") auto
  then have "evolves s t" using ev by blast
  then have le: "length (heap s) \<le> length (heap t)" by (simp add: evolves_def)
  from Resolve.prems step obtain u where "r1 = Inr u" and "exec rslv rest t = Some (Inr v, s')"
    by (cases r1) auto
  with Resolve.IH Resolve.prems(2) obtain a where "v = Obj a" "length (heap t) \<le> a" "a < length (heap s')"
    by auto
  with le show ?case by auto
qed auto

lemma createInstance_constructs:
  assumes run: "createInstance (resolve k) name reg s = Some (Inr v, s')"
    and "constructs (next_body (factory reg) s)"
  shows "\<exists>a. v = Obj a \<and> length (heap s) \<le> a \<and> a < length (heap s')"
proof -
  let ?s = "logged name (factory reg) s"
  have ev: "\<forall>d s r s'. resolve k d s = Some (r, s') \<longrightarrow> evolves s s'"
    using resolve_evolves by blast
  from run have "exec (resolve k) (next_body (factory reg) s) ?s = Some (Inr v, s')"
    by (auto simp: createInstance_def split: option.splits sum.splits)
  from exec_constructs [OF ev this assms(2)] show ?thesis by simp
qed

lemma Map_get_assign_instance_same:
  "Map_get (assign_instance m name v) name = map_option (\<lambda>r. r\<lparr>instance' := v\<rparr>) (Map_get m name)"
  by (induction m) (auto simp: Map_get_def assign_instance_def)

lemma resolve_builds_result:
  assumes reg: "Map_get (services s) name = Some reg" and off: "name \<notin> set (resolutionStack s)"
    and b: "builds s name reg"
    and run: "resolve k name s = Some (r, s')"
  shows "count_list (calls s') name = Suc (count_list (calls s) name)"
    and "r = Inr v \<Longrightarrow> name \<notin> set (resolutionStack s')"
    and "r = Inr v \<Longrightarrow> lifetime reg = Scoped \<Longrightarrow> Map_get (scopedInstances s') name = Some v"
    and "lifetime reg \<noteq> Scoped \<Longrightarrow> Map_get (scopedInstances s') name = Map_get (scopedInstances s) name"
    and "lifetime reg \<noteq> Singleton \<Longrightarrow> Map_get (services s') name = Some reg"
    and "r = Inr v \<Longrightarrow> lifetime reg = Singleton \<Longrightarrow> Map_get (services s') name = Some (reg\<lparr>instance' := v\<rparr>)"
    and "r = Inr v \<Longrightarrow> constructs (next_body (factory reg) s)
           \<Longrightarrow> \<exists>a. v = Obj a \<and> length (heap s) \<le> a \<and> a < length (heap s')"
    and "isl r \<Longrightarrow> name \<in> set (resolutionStack s')"
proof -
  from run obtain j where k: "k = Suc j" by (cases k) auto
  let ?s1 = "s\<lparr>resolutionStack := Set_add (resolutionStack s) name\<rparr>"
  from run k resolve_builds [OF reg off b, of j]
  obtain r1 t where ci: "createInstance (resolve j) name reg ?s1 = Some (r1, t)"
    by (cases "createInstance (resolve j) name reg ?s1") (auto simp del: resolve.simps)
  have on: "name \<in> set (resolutionStack ?s1)" by (simp add: Set_add_def)
  note self = createInstance_self [OF on ci]
  from run k resolve_builds [OF reg off b, of j] ci
  have res: "(r, s') = (case r1 of Inl e \<Rightarrow> (Inl e, t) | Inr v \<Rightarrow> (Inr v, store (lifetime reg) name v t))"
    by (cases r1) (auto simp del: resolve.simps)
  show "count_list (calls s') name = Suc (count_list (calls s) name)"
    using res self by (cases r1; cases "lifetime reg") (auto simp: store_def)
  show "r = Inr v \<Longrightarrow> name \<notin> set (resolutionStack s')"
    using res by (cases r1; cases "lifetime reg") (auto simp: store_def Set_delete_def)
  show "r = Inr v \<Longrightarrow> lifetime reg = Scoped \<Longrightarrow> Map_get (scopedInstances s') name = Some v"
    using res by (cases r1) (auto simp: store_def Map_get_Map_set)
  show "lifetime reg \<noteq> Scoped \<Longrightarrow> Map_get (scopedInstances s') name = Map_get (scopedInstances s) name"
    using res self by (cases r1; cases "lifetime reg") (auto simp: store_def)
  show "lifetime reg \<noteq> Singleton \<Longrightarrow> Map_get (services s') name = Some reg"
    using res self reg by (cases r1; cases "lifetime reg") (auto simp: store_def)
  show "r = Inr v \<Longrightarrow> lifetime reg = Singleton \<Longrightarrow> Map_get (services s') name = Some (reg\<lparr>instance' := v\<rparr>)"
    using res self reg by (cases r1) (auto simp: store_def Map_get_assign_instance_same)
  show "r = Inr v \<Longrightarrow> constructs (next_body (factory reg) s)
           \<Longrightarrow> \<exists>a. v = Obj a \<and> length (heap s) \<le> a \<and> a < length (heap s')"
  proof -
    assume rv: "r = Inr v" and c: "constructs (next_body (factory reg) s)"
    with res have r1: "r1 = Inr v" and s': "s' = store (lifetime reg) name v t" by (cases r1; auto)+
    from ci r1 have "createInstance (resolve j) name reg ?s1 = Some (Inr v, t)" by simp
    from createInstance_constructs [OF this] c
    obtain a where "v = Obj a" "length (heap s) \<le> a" "a < length (heap t)" by auto
    moreover have "heap s' = heap t" using s' by (cases "lifetime reg") (auto simp: store_def)
    ultimately show ?thesis by simp
  qed
  show "isl r \<Longrightarrow> name \<in> set (resolutionStack s')"
    using res self by (cases r1) auto
qed

subsection \<open>A successful resolution restores the stack\<close>

lemma Set_delete_added: "name \<notin> set st \<Longrightarrow> Set_delete (Set_add st name) name = st"
  by (auto simp: Set_delete_def Set_add_def filter_id_conv)

lemma exec_success_stack:
  assumes sub: "\<forall>d s v s'. rslv d s = Some (Inr v, s') \<longrightarrow> resolutionStack s' = resolutionStack s"
  shows "exec rslv b s = Some (Inr v, s') \<Longrightarrow> resolutionStack s' = resolutionStack s"
proof (induction b arbitrary: s)
  case (Resolve dep rest)
  from Resolve.prems obtain r1 t where step: "rslv dep s = Some (r1, t)"
    by (cases "rslv dep s") auto
  with Resolve.prems obtain u where r1: "r1 = Inr u" and rest: "exec rslv rest t = Some (Inr v, s')"
    by (cases r1) auto
  from step r1 sub have "resolutionStack t = resolutionStack s" by blast
  with Resolve.IH [OF rest] show ?case by simp
qed auto

lemma resolve_success_stack:
  "resolve k name s = Some (Inr v, s') \<Longrightarrow> resolutionStack s' = resolutionStack s"
proof (induction k arbitrary: name s v s')
  case 0
  then show ?case by simp
next
  case (Suc k)
  have sub: "\<forall>d s v s'. resolve k d s = Some (Inr v, s') \<longrightarrow> resolutionStack s' = resolutionStack s"
    using Suc.IH by blast
  have has: "Map_has (services s) name" and off: "name \<notin> set (resolutionStack s)"
    using Suc.prems by (auto split: if_splits)
  then obtain reg where reg: "Map_get (services s) name = Some reg"
    by (auto simp: Map_has_def Map_get_def)
  show ?case
  proof (cases "builds s name reg")
    case False
    from Suc.prems resolve_cached [OF reg off False, of k] show ?thesis
      by (simp del: resolve.simps)
  next
    case True
    let ?s1 = "s\<lparr>resolutionStack := Set_add (resolutionStack s) name\<rparr>"
    from Suc.prems resolve_builds [OF reg off True, of k]
    obtain t where ci: "createInstance (resolve k) name reg ?s1 = Some (Inr v, t)"
      and s': "s' = store (lifetime reg) name v t"
      by (auto simp del: resolve.simps split: option.splits sum.splits)
    from ci have "exec (resolve k) (next_body (factory reg) ?s1) (logged name (factory reg) ?s1) = Some (Inr v, t)"
      by (auto simp: createInstance_def split: option.splits sum.splits)
    from exec_success_stack [OF sub this] have "resolutionStack t = Set_add (resolutionStack s) name"
      by simp
    with s' off show ?thesis
      by (cases "lifetime reg") (simp_all add: store_def Set_delete_added)
  qed
qed

subsection \<open>Factories without dependencies\<close>

lemma store_pushed:
  assumes "name \<notin> set (resolutionStack s)"
    and "resolutionStack t = Set_add (resolutionStack s) name"
    and "services t = services s" "scopedInstances t = scopedInstances s"
    and "dependencyGraph t = dependencyGraph s" "listeners t = listeners s"
    and "emitted t = emitted s" "heap t = heap s" "calls t = calls s" "invoked t = invoked s"
    and "disposed t = disposed s" "state.more t = state.more s"
  shows "store lt name v t = cache lt name v s"
  using assms by (cases lt) (auto simp: store_def cache_def Set_delete_added intro!: state.equality)

lemma resolve_returning_factory:
  assumes reg: "Map_get (services s) name = Some reg" and off: "name \<notin> set (resolutionStack s)"
    and b: "builds s name reg" and body: "next_body (factory reg) s = Return v"
  shows "resolve (Suc k) name s = Some (Inr v, cache (lifetime reg) name v (logged name (factory reg) s))"
proof -
  let ?t = "logged name (factory reg) (s\<lparr>resolutionStack := Set_add (resolutionStack s) name\<rparr>)"
  have "store (lifetime reg) name v ?t = cache (lifetime reg) name v (logged name (factory reg) s)"
    using off by (intro store_pushed) (cases "factory reg"; simp)+
  then show ?thesis
    using resolve_builds [OF reg off b, of k] body
    by (simp add: createInstance_def del: resolve.simps)
qed

lemma resolve_constructing_factory:
  assumes reg: "Map_get (services s) name = Some reg" and off: "name \<notin> set (resolutionStack s)"
    and b: "builds s name reg" and body: "next_body (factory reg) s = Construct h"
  shows "resolve (Suc k) name s
     = Some (Inr (Obj (length (heap s))),
             cache (lifetime reg) name (Obj (length (heap s)))
               ((logged name (factory reg) s)\<lparr>heap := heap s @ [h]\<rparr>))"
proof -
  let ?s1 = "s\<lparr>resolutionStack := Set_add (resolutionStack s) name\<rparr>"
  let ?t = "(logged name (factory reg) ?s1)\<lparr>heap := heap (logged name (factory reg) ?s1) @ [h]\<rparr>"
  have "store (lifetime reg) name (Obj (length (heap s))) ?t
      = cache (lifetime reg) name (Obj (length (heap s)))
          ((logged name (factory reg) s)\<lparr>heap := heap s @ [h]\<rparr>)"
    using off by (intro store_pushed) (cases "factory reg"; simp)+
  then show ?thesis
    using resolve_builds [OF reg off b, of k] body
    by (simp add: createInstance_def del: resolve.simps)
qed


text \<open>The definitions to unfold when a call is evaluated on a concrete container.\<close>

lemmas run_simps = register_def new_container_def Map_has_def Map_get_def createInstance_def
  extractDependencies_def updateDependencyGraph_def Set_add_def Set_delete_def
  assign_instance_def clearScope_def dispose_def on_registered_def

subsection \<open>Scoped and transient services\<close>


lemma scoped_resolved_again:
  assumes reg: "Map_get (services s) name = Some reg" and sc: "lifetime reg = Scoped"
    and run: "resolve k name s = Some (Inr v, s1)"
  shows "Map_get (services s1) name = Some reg"
    and "name \<notin> set (resolutionStack s1)"
    and "Map_get (scopedInstances s1) name = Some v"
    and "resolve (Suc j) name s1 = Some (Inr v, s1)"
    and "count_list (calls s1) name = (if builds s name reg then Suc (count_list (calls s) name) else count_list (calls s) name)"
proof -
  from run obtain i where k: "k = Suc i" by (cases k) auto
  have off: "name \<notin> set (resolutionStack s)"
    using run k Map_get_Some_has [OF reg] by (auto split: if_splits)
  have all: "Map_get (services s1) name = Some reg \<and> name \<notin> set (resolutionStack s1) \<and>
      Map_get (scopedInstances s1) name = Some v \<and>
      count_list (calls s1) name = (if builds s name reg then Suc (count_list (calls s) name) else count_list (calls s) name)"
  proof (cases "builds s name reg")
    case True
    from resolve_builds_result(1) [OF reg off True run] resolve_builds_result(2,3) [OF reg off True run refl]
      resolve_builds_result(5) [OF reg off True run] sc True show ?thesis by simp
  next
    case False
    with sc have has: "Map_has (scopedInstances s) name" by (simp add: builds_def)
    from run k resolve_cached [OF reg off False, of i] sc
    have "s1 = s" and "v = the (Map_get (scopedInstances s) name)" by (auto simp del: resolve.simps)
    with has reg off False show ?thesis by (auto simp: Map_has_def Map_get_def)
  qed
  then show "Map_get (services s1) name = Some reg" and "name \<notin> set (resolutionStack s1)"
    and "Map_get (scopedInstances s1) name = Some v"
    and "count_list (calls s1) name = (if builds s name reg then Suc (count_list (calls s) name) else count_list (calls s) name)"
    by blast+
  from all sc have nb: "\<not> builds s1 name reg" by (simp add: builds_def Map_has_def Map_get_def)
  from all have r1: "Map_get (services s1) name = Some reg" and o1: "name \<notin> set (resolutionStack s1)" by blast+
  from resolve_cached [OF r1 o1 nb, of j] sc all
  show "resolve (Suc j) name s1 = Some (Inr v, s1)" by (simp del: resolve.simps)
qed

text \<open>
  C9: for a Scoped service the cache is consulted by key (\<open>scopedInstances.has\<close>), never
  by the truthiness of the stored value. When the factory is invoked (the name is not
  under construction and the scope does not hold it) and returns a value \<open>v\<close>, any value,
  falsy or not, then \<open>resolve\<close> returns \<open>v\<close> and has stored \<open>v\<close> under the name, with one
  invocation logged. And whatever value \<open>v\<close> a resolution returned, the key is present
  afterwards, the cache holds \<open>v\<close>, and every later resolution in the scope returns \<open>v\<close>
  from the cache and leaves the state, hence the invocation log, as it is: the factory
  has run at most once.
\<close>

theorem scoped_cache_by_key_presence:
  assumes reg: "Map_get (services s) name = Some registration"
    and sc: "lifetime registration = Scoped"
  shows "(name \<notin> set (resolutionStack s) \<and> \<not> Map_has (scopedInstances s) name \<and>
            next_body (factory registration) s = Return v \<longrightarrow>
            resolve (Suc k) name s
              = Some (Inr v, (logged name (factory registration) s)
                               \<lparr>scopedInstances := Map_set (scopedInstances s) name v\<rparr>)) \<and>
         (resolve k name s = Some (Inr v, s1) \<longrightarrow>
            Map_has (scopedInstances s1) name \<and>
            Map_get (scopedInstances s1) name = Some v \<and>
            resolve (Suc j) name s1 = Some (Inr v, s1) \<and>
            count_list (calls s1) name \<le> Suc (count_list (calls s) name))"
proof (intro conjI impI)
  assume a: "name \<notin> set (resolutionStack s) \<and> \<not> Map_has (scopedInstances s) name \<and>
            next_body (factory registration) s = Return v"
  then have b: "builds s name registration" using sc by (simp add: builds_def)
  from resolve_returning_factory [OF reg _ b, of v k] a sc
  show "resolve (Suc k) name s
      = Some (Inr v, (logged name (factory registration) s)
                       \<lparr>scopedInstances := Map_set (scopedInstances s) name v\<rparr>)"
    by (simp add: cache_def del: resolve.simps)
next
  assume run: "resolve k name s = Some (Inr v, s1)"
  note again = scoped_resolved_again [OF reg sc run]
  from again(3) show "Map_has (scopedInstances s1) name" by (simp add: Map_has_def Map_get_def)
  from again(3) show "Map_get (scopedInstances s1) name = Some v" .
  from again(4) show "resolve (Suc j) name s1 = Some (Inr v, s1)" .
  from again(5) show "count_list (calls s1) name \<le> Suc (count_list (calls s) name)" by simp
qed

theorem scoped_cache_by_key_presence_witness:
  "resolve (Suc 0) ''U'' (falsy_demo Undefined) = Some (Inr Undefined, falsy_demo_resolved Undefined) \<and>
   resolve (Suc 0) ''U'' (falsy_demo_resolved Undefined) = Some (Inr Undefined, falsy_demo_resolved Undefined) \<and>
   resolve (Suc 0) ''U'' (falsy_demo Null) = Some (Inr Null, falsy_demo_resolved Null) \<and>
   resolve (Suc 0) ''U'' (falsy_demo_resolved Null) = Some (Inr Null, falsy_demo_resolved Null) \<and>
   resolve (Suc 0) ''U'' (falsy_demo (Num 0)) = Some (Inr (Num 0), falsy_demo_resolved (Num 0)) \<and>
   resolve (Suc 0) ''U'' (falsy_demo_resolved (Num 0)) = Some (Inr (Num 0), falsy_demo_resolved (Num 0)) \<and>
   resolve (Suc 0) ''U'' (falsy_demo (Str [])) = Some (Inr (Str []), falsy_demo_resolved (Str [])) \<and>
   resolve (Suc 0) ''U'' (falsy_demo_resolved (Str [])) = Some (Inr (Str []), falsy_demo_resolved (Str [])) \<and>
   resolve (Suc 0) ''U'' (falsy_demo (Bool False)) = Some (Inr (Bool False), falsy_demo_resolved (Bool False)) \<and>
   resolve (Suc 0) ''U'' (falsy_demo_resolved (Bool False)) = Some (Inr (Bool False), falsy_demo_resolved (Bool False)) \<and>
   \<not> truthy Undefined \<and> \<not> truthy Null \<and> \<not> truthy (Num 0) \<and> \<not> truthy (Str []) \<and> \<not> truthy (Bool False) \<and>
   calls (falsy_demo_resolved (Num 0)) = [''U'']"
proof -
  have both: "resolve (Suc 0) ''U'' (falsy_demo v) = Some (Inr v, falsy_demo_resolved v) \<and>
      resolve (Suc 0) ''U'' (falsy_demo_resolved v) = Some (Inr v, falsy_demo_resolved v)" for v
  proof -
    let ?reg = "\<lparr>factory = Stateless (Return v), lifetime = Scoped, instance' = Undefined,
                 dependencies = []\<rparr>"
    have reg: "Map_get (services (falsy_demo v)) ''U'' = Some ?reg"
      by (simp add: falsy_demo_def run_simps)
    have sc: "lifetime ?reg = Scoped" by simp
    have pre: "''U'' \<notin> set (resolutionStack (falsy_demo v)) \<and>
        \<not> Map_has (scopedInstances (falsy_demo v)) ''U'' \<and>
        next_body (factory ?reg) (falsy_demo v) = Return v"
      by (simp add: falsy_demo_def run_simps)
    have state: "(logged ''U'' (factory ?reg) (falsy_demo v))
          \<lparr>scopedInstances := Map_set (scopedInstances (falsy_demo v)) ''U'' v\<rparr>
        = falsy_demo_resolved v"
      by (simp add: falsy_demo_resolved_def falsy_demo_def run_simps)
    from scoped_cache_by_key_presence [OF reg sc, THEN conjunct1, of v 0] pre state
    have first: "resolve (Suc 0) ''U'' (falsy_demo v) = Some (Inr v, falsy_demo_resolved v)"
      by (simp del: resolve.simps)
    from scoped_cache_by_key_presence [OF reg sc, THEN conjunct2, of "Suc 0" v "falsy_demo_resolved v" 0] first
    have "resolve (Suc 0) ''U'' (falsy_demo_resolved v) = Some (Inr v, falsy_demo_resolved v)"
      by blast
    with first show ?thesis by blast
  qed
  have log: "calls (falsy_demo_resolved (Num 0)) = [''U'']"
    by (simp add: falsy_demo_resolved_def)
  from both [of Undefined] both [of Null] both [of "Num 0"] both [of "Str []"] both [of "Bool False"] log
  show ?thesis by (simp del: resolve.simps)
qed




subsection \<open>Factories that throw\<close>

lemma resolve_on_stack:
  "Map_has (services s) name \<Longrightarrow> name \<in> set (resolutionStack s) \<Longrightarrow>
     resolve (Suc k) name s = Some (Inl (CircularDependency (resolutionStack s @ [name])), s)"
  by simp


lemma failed_resolve_blocks_name:
  assumes reg: "Map_get (services s) name = Some reg" and off: "name \<notin> set (resolutionStack s)"
    and b: "builds s name reg"
    and run: "resolve k name s = Some (Inl e, s')"
  shows "name \<in> set (resolutionStack s')"
    and "resolve (Suc j) name s' = Some (Inl (CircularDependency (resolutionStack s' @ [name])), s')"
proof -
  show on: "name \<in> set (resolutionStack s')"
    using resolve_builds_result(8) [OF reg off b run] by simp
  have "evolves s s'" using run by (rule resolve_evolves)
  then have "skeleton (services s') = skeleton (services s)" by (simp add: evolves_def)
  then have "Map_has (services s') name = Map_has (services s) name" by (rule skeleton_Map_has)
  with Map_get_Some_has [OF reg] have "Map_has (services s') name" by simp
  then show "resolve (Suc j) name s' = Some (Inl (CircularDependency (resolutionStack s' @ [name])), s')"
    using on by (rule resolve_on_stack)
qed

text \<open>
  C1: the source has no \<open>finally\<close> around \<open>createInstance\<close>, so the \<open>delete\<close> that follows it
  is skipped when the factory throws. With the factory \<open>fails_first\<close> registered under any
  lifetime, the first resolution fails with the construction error that names the service
  and wraps the thrown error, and leaves the name on the resolution stack; the second
  resolution, for which the factory would succeed, is rejected as a cycle before the
  factory is invoked.
\<close>

theorem failed_factory_poisons_name:
  "resolve (Suc (Suc 0)) ''F'' (flaky_demo lt)
     = Some (Inl (ConstructionFailed ''F'' (Thrown ''boom'')), flaky_demo_failed lt) \<and>
   resolutionStack (flaky_demo_failed lt) = [''F''] \<and>
   resolve (Suc (Suc 0)) ''F'' (flaky_demo_failed lt)
     = Some (Inl (CircularDependency [''F'', ''F'']), flaky_demo_failed lt) \<and>
   next_body fails_first (flaky_demo_failed lt) = Construct NoDispose"
  by (cases lt) (simp_all add: flaky_demo_failed_def flaky_demo_def fails_first_def run_simps)

subsection \<open>Singletons\<close>

lemma singleton_truthy_cached:
  assumes reg: "Map_get (services s) name = Some reg" and sg: "lifetime reg = Singleton"
    and run: "resolve k name s = Some (Inr v, s1)" and tv: "truthy v"
  shows "resolve (Suc j) name s1 = Some (Inr v, s1)"
proof -
  from run obtain i where k: "k = Suc i" by (cases k) auto
  have off: "name \<notin> set (resolutionStack s)"
    using run k Map_get_Some_has [OF reg] by (auto split: if_splits)
  have "\<exists>reg1. Map_get (services s1) name = Some reg1 \<and> lifetime reg1 = Singleton \<and>
      instance' reg1 = v \<and> name \<notin> set (resolutionStack s1)"
  proof (cases "builds s name reg")
    case True
    from resolve_builds_result(2,6) [OF reg off True run refl] sg show ?thesis by simp
  next
    case False
    from run k resolve_cached [OF reg off False, of i] sg
    have "s1 = s" and "v = instance' reg" by (auto simp del: resolve.simps)
    with reg off sg show ?thesis by simp
  qed
  then obtain reg1 where r1: "Map_get (services s1) name = Some reg1"
    and l1: "lifetime reg1 = Singleton" and i1: "instance' reg1 = v"
    and o1: "name \<notin> set (resolutionStack s1)" by blast
  have nb: "\<not> builds s1 name reg1" using l1 i1 tv by (simp add: builds_def)
  from resolve_cached [OF r1 o1 nb, of j] l1 i1 show ?thesis by (simp del: resolve.simps)
qed

text \<open>
  C5: the Singleton branch tests \<open>!registration.instance\<close>, the truthiness of the stored
  instance, where the Scoped branch tests the presence of the key. A singleton whose
  factory returns a falsy value is therefore built again by the next resolution. With the
  factory \<open>counting\<close> the first resolution returns \<open>0\<close>, the second invokes the factory again
  and returns \<open>1\<close>: two invocations and two different results.
\<close>

theorem singleton_falsy_instance_rebuilt:
  "resolve (Suc (Suc 0)) ''K'' counting_demo = Some (Inr (Num 0), counting_demo_once) \<and>
   resolve (Suc (Suc 0)) ''K'' counting_demo_once = Some (Inr (Num 1), counting_demo_twice) \<and>
   count_list (calls counting_demo_twice) ''K'' = 2 \<and>
   Num 0 \<noteq> Num 1"
  by (simp add: counting_demo_twice_def counting_demo_once_def counting_demo_def counting_def
      registerSingleton_def run_simps)

subsection \<open>Teardown\<close>

lemma singletons_demo_reached:
  "resolve (Suc 0) ''A'' singletons_registered = Some (Inr (Obj 0), singletons_half) \<and>
   resolve (Suc 0) ''B'' singletons_half = Some (Inr (Obj 1), singletons_demo)"
  by (simp add: singletons_demo_def singletons_half_def singletons_registered_def
      registerSingleton_def run_simps)

lemma disposable_append: "disposable s (xs @ ys) = disposable s xs @ disposable s ys"
  by (induction s xs rule: disposable.induct) auto

lemma disposable_disposed [simp]: "disposable (s\<lparr>disposed := d\<rparr>) vs = disposable s vs"
  by (induction s vs rule: disposable.induct) auto

lemma hook_error_disposed [simp]: "hook_error (s\<lparr>disposed := d\<rparr>) v = hook_error s v"
  by (cases v) auto

lemma disposable_falsy: "\<not> truthy v \<Longrightarrow> disposable s [v] = []"
  by (cases v) auto

lemma dispose_if_function_eq:
  "dispose_if_function v s =
     ((case hook_error s v of None \<Rightarrow> Inr () | Some e \<Rightarrow> Inl e),
      s\<lparr>disposed := disposed s @ disposable s [v]\<rparr>)"
  by (cases v) (auto split: hook.splits)

lemma dispose_scoped_quiet:
  "scope_quiet s m \<Longrightarrow>
     dispose_scoped m s = (Inr (), s\<lparr>disposed := disposed s @ disposable s (map snd m)\<rparr>)"
proof (induction m arbitrary: s)
  case Nil
  then show ?case by simp
next
  case (Cons p m)
  obtain n v where p: "p = (n, v)" by (cases p)
  let ?t = "s\<lparr>disposed := disposed s @ disposable s [v]\<rparr>"
  from Cons.prems p have q: "hook_error s v = None" "v \<noteq> Undefined" "v \<noteq> Null"
    and rest: "scope_quiet s m" by (simp_all add: scope_quiet_def)
  from rest have "scope_quiet ?t m" by (simp add: scope_quiet_def)
  from Cons.IH [OF this] have "dispose_scoped m ?t
      = (Inr (), s\<lparr>disposed := disposed s @ disposable s [v] @ disposable s (map snd m)\<rparr>)"
    by simp
  moreover have "disposable s (v # map snd m) = disposable s [v] @ disposable s (map snd m)"
    using disposable_append [of s "[v]" "map snd m"] by simp
  ultimately show ?case using p q by (simp add: dispose_if_function_eq)
qed

lemma dispose_scoped_append:
  "dispose_scoped pre s = (Inr (), t) \<Longrightarrow> dispose_scoped (pre @ post) s = dispose_scoped post t"
proof (induction pre arbitrary: s)
  case Nil
  then show ?case by simp
next
  case (Cons p pre)
  obtain n v where p: "p = (n, v)" by (cases p)
  from Cons.prems p have nn: "\<not> (v = Undefined \<or> v = Null)" by (auto split: if_splits)
  obtain r1 u where d: "dispose_if_function v s = (r1, u)" by (cases "dispose_if_function v s")
  with Cons.prems p nn obtain x where r1: "r1 = Inr x" and rest: "dispose_scoped pre u = (Inr (), t)"
    by (cases r1) auto
  from Cons.IH [OF rest] p nn d r1 show ?case by simp
qed

lemma dispose_scoped_throwing:
  assumes quiet: "scope_quiet s pre" and err: "hook_error s v = Some e"
  shows "dispose_scoped (pre @ (n, v) # post) s
     = (Inl e, s\<lparr>disposed := disposed s @ disposable s (map snd pre @ [v])\<rparr>)"
proof -
  let ?t = "s\<lparr>disposed := disposed s @ disposable s (map snd pre)\<rparr>"
  from err have nn: "v \<noteq> Undefined" "v \<noteq> Null" by auto
  have "dispose_scoped (pre @ (n, v) # post) s = dispose_scoped ((n, v) # post) ?t"
    using dispose_scoped_quiet [OF quiet] by (rule dispose_scoped_append)
  also have "\<dots> = (Inl e, ?t\<lparr>disposed := disposed ?t @ disposable s [v]\<rparr>)"
    using err nn by (simp add: dispose_if_function_eq)
  finally show ?thesis by (simp add: disposable_append)
qed

lemma dispose_singletons_quiet:
  "singletons_quiet s m \<Longrightarrow>
     dispose_singletons m s = (Inr (), s\<lparr>disposed := disposed s @ disposable s (instances m)\<rparr>)"
proof (induction m arbitrary: s)
  case Nil
  then show ?case by (simp add: instances_def)
next
  case (Cons p m)
  obtain n reg where p: "p = (n, reg)" by (cases p)
  let ?v = "instance' reg"
  let ?t = "s\<lparr>disposed := disposed s @ disposable s [?v]\<rparr>"
  from Cons.prems p have q: "hook_error s ?v = None" and rest: "singletons_quiet s m"
    by (simp_all add: singletons_quiet_def)
  from rest have "singletons_quiet ?t m" by (simp add: singletons_quiet_def)
  from Cons.IH [OF this] have tail: "dispose_singletons m ?t
      = (Inr (), s\<lparr>disposed := disposed s @ disposable s [?v] @ disposable s (instances m)\<rparr>)"
    by simp
  have split: "disposable s (instances (p # m)) = disposable s [?v] @ disposable s (instances m)"
    using disposable_append [of s "[?v]" "instances m"] p by (simp add: instances_def)
  show ?case
  proof (cases "truthy ?v")
    case True
    with tail split p q show ?thesis by (simp add: dispose_if_function_eq)
  next
    case False
    then have "disposable s [?v] = []" by (rule disposable_falsy)
    with tail split p False show ?thesis by simp
  qed
qed

lemma dispose_singletons_append:
  "dispose_singletons pre s = (Inr (), t) \<Longrightarrow>
     dispose_singletons (pre @ post) s = dispose_singletons post t"
proof (induction pre arbitrary: s)
  case Nil
  then show ?case by simp
next
  case (Cons p pre)
  obtain n reg where p: "p = (n, reg)" by (cases p)
  show ?case
  proof (cases "truthy (instance' reg)")
    case False
    with Cons p show ?thesis by simp
  next
    case True
    obtain r1 u where d: "dispose_if_function (instance' reg) s = (r1, u)"
      by (cases "dispose_if_function (instance' reg) s")
    with Cons.prems p True obtain x where r1: "r1 = Inr x"
      and rest: "dispose_singletons pre u = (Inr (), t)"
      by (cases r1) auto
    from Cons.IH [OF rest] p True d r1 show ?thesis by simp
  qed
qed

lemma dispose_singletons_throwing:
  assumes quiet: "singletons_quiet s pre" and err: "hook_error s (instance' reg) = Some e"
  shows "dispose_singletons (pre @ (n, reg) # post) s
     = (Inl e, s\<lparr>disposed := disposed s @ disposable s (instances pre @ [instance' reg])\<rparr>)"
proof -
  let ?t = "s\<lparr>disposed := disposed s @ disposable s (instances pre)\<rparr>"
  from err have tr: "truthy (instance' reg)" by (cases "instance' reg") auto
  have "dispose_singletons (pre @ (n, reg) # post) s = dispose_singletons ((n, reg) # post) ?t"
    using dispose_singletons_quiet [OF quiet] by (rule dispose_singletons_append)
  also have "\<dots> = (Inl e, ?t\<lparr>disposed := disposed ?t @ disposable s [instance' reg]\<rparr>)"
    using err tr by (simp add: dispose_if_function_eq)
  finally show ?thesis by (simp add: disposable_append)
qed

lemma clearScope_throwing:
  assumes "scopedInstances s = pre @ (n, v) # post" and "scope_quiet s pre"
    and "hook_error s v = Some e"
  shows "clearScope s = (Inl e, s\<lparr>disposed := disposed s @ disposable s (map snd pre @ [v])\<rparr>)"
  using dispose_scoped_throwing [OF assms(2,3), of n post] assms(1) by (simp add: clearScope_def)

lemma clearScope_quiet:
  assumes "scope_quiet s (scopedInstances s)"
  shows "clearScope s
     = (Inr (), s\<lparr>scopedInstances := [],
                   disposed := disposed s @ disposable s (map snd (scopedInstances s))\<rparr>)"
  using dispose_scoped_quiet [OF assms] by (simp add: clearScope_def)

lemma dispose_throwing_singleton:
  assumes "services s = pre @ (n, reg) # post" and "singletons_quiet s pre"
    and "hook_error s (instance' reg) = Some e"
  shows "dispose s
     = (Inl e, s\<lparr>disposed := disposed s @ disposable s (instances pre @ [instance' reg])\<rparr>)"
  using dispose_singletons_throwing [OF assms(2,3), of n post] assms(1) by (simp add: dispose_def)

lemma dispose_throwing_scoped:
  assumes "singletons_quiet s (services s)"
    and "scopedInstances s = pre @ (n, v) # post" and "scope_quiet s pre"
    and "hook_error s v = Some e"
  shows "dispose s
     = (Inl e, s\<lparr>disposed := disposed s @ disposable s (instances (services s))
                               @ disposable s (map snd pre @ [v])\<rparr>)"
proof -
  let ?t = "s\<lparr>disposed := disposed s @ disposable s (instances (services s))\<rparr>"
  have q: "scope_quiet ?t pre" using assms(3) by (simp add: scope_quiet_def)
  have e: "hook_error ?t v = Some e" using assms(4) by simp
  from dispose_scoped_throwing [OF q e, of n post] dispose_singletons_quiet [OF assms(1)] assms(2)
  show ?thesis by (simp add: dispose_def)
qed

lemma dispose_quiet:
  assumes "singletons_quiet s (services s)" and "scope_quiet s (scopedInstances s)"
  shows "dispose s
     = (Inr (), s\<lparr>services := [], scopedInstances := [], dependencyGraph := [], listeners := [],
                   disposed := disposed s @ disposable s (instances (services s))
                                 @ disposable s (map snd (scopedInstances s))\<rparr>)"
proof -
  let ?t = "s\<lparr>disposed := disposed s @ disposable s (instances (services s))\<rparr>"
  have q: "scope_quiet ?t (scopedInstances s)" using assms(2) by (simp add: scope_quiet_def)
  from dispose_scoped_quiet [OF q] dispose_singletons_quiet [OF assms(1)]
  show ?thesis by (simp add: dispose_def)
qed

text \<open>
  C3, as stated, has every \<open>dispose\<close> method called under its own error handling. The
  iterations in \<open>dispose\<close> and \<open>clearScope\<close> contain no \<open>try\<close>. With the instances of \<open>A\<close> and \<open>B\<close>
  in the scope, the method of \<open>A\<close> throwing, both operations fail with the thrown error,
  the method of \<open>B\<close> (reference 1) is never invoked, and nothing is cleared.
\<close>

theorem teardown_error_not_isolated_counterexample:
  "resolve (Suc 0) ''A'' teardown_registered = Some (Inr (Obj 0), teardown_half) \<and>
   resolve (Suc 0) ''B'' teardown_half = Some (Inr (Obj 1), teardown_demo) \<and>
   clearScope teardown_demo = (Inl (Thrown ''fail''), teardown_demo\<lparr>disposed := [0]\<rparr>) \<and>
   dispose teardown_demo = (Inl (Thrown ''fail''), teardown_demo\<lparr>disposed := [0]\<rparr>) \<and>
   scopedInstances (teardown_demo\<lparr>disposed := [0]\<rparr>) = [(''A'', Obj 0), (''B'', Obj 1)]"
  by (simp add: teardown_demo_def teardown_half_def teardown_registered_def registerScoped_def
      run_simps)

text \<open>
  C3, amended: \<open>dispose\<close> and \<open>clearScope\<close> invoke the \<open>dispose\<close> methods of the cached
  instances entry after entry, in iteration order, with no error handling. The first
  method that throws ends the operation with its error, which reaches the caller; the
  entries after it are not visited and nothing is cleared: the state differs from the one
  before only by the logged invocations up to and including the throwing one. When no
  method throws, the operation returns, the method of the instance of every cache entry
  has been invoked, once for each entry that holds the instance, in iteration order, and
  the caches are cleared. In \<open>dispose\<close> the registrations come before the scoped entries.
  Scoped entries that hold \<open>undefined\<close> or \<open>null\<close> are outside this statement.
\<close>

theorem teardown_stops_at_first_error:
  "(scopedInstances s = pre @ (n, v) # post \<and> scope_quiet s pre \<and> hook_error s v = Some e
      \<longrightarrow> clearScope s
            = (Inl e, s\<lparr>disposed := disposed s @ disposable s (map snd pre @ [v])\<rparr>)) \<and>
   (scope_quiet s (scopedInstances s)
      \<longrightarrow> clearScope s
            = (Inr (), s\<lparr>scopedInstances := [],
                          disposed := disposed s @ disposable s (map snd (scopedInstances s))\<rparr>)) \<and>
   (services s = pre' @ (n', reg) # post' \<and> singletons_quiet s pre' \<and>
      hook_error s (instance' reg) = Some e
      \<longrightarrow> dispose s
            = (Inl e, s\<lparr>disposed := disposed s
                                      @ disposable s (instances pre' @ [instance' reg])\<rparr>)) \<and>
   (singletons_quiet s (services s) \<and> scopedInstances s = pre @ (n, v) # post \<and>
      scope_quiet s pre \<and> hook_error s v = Some e
      \<longrightarrow> dispose s
            = (Inl e, s\<lparr>disposed := disposed s @ disposable s (instances (services s))
                                      @ disposable s (map snd pre @ [v])\<rparr>)) \<and>
   (singletons_quiet s (services s) \<and> scope_quiet s (scopedInstances s)
      \<longrightarrow> dispose s
            = (Inr (), s\<lparr>services := [], scopedInstances := [], dependencyGraph := [],
                          listeners := [],
                          disposed := disposed s @ disposable s (instances (services s))
                                        @ disposable s (map snd (scopedInstances s))\<rparr>))"
  using clearScope_throwing [of s pre n v post e] clearScope_quiet [of s]
    dispose_throwing_singleton [of s pre' n' reg post' e]
    dispose_throwing_scoped [of s pre n v post e] dispose_quiet [of s]
  by blast

theorem teardown_stops_at_first_error_witness:
  "clearScope teardown_demo = (Inl (Thrown ''fail''), teardown_demo\<lparr>disposed := [0]\<rparr>) \<and>
   clearScope scoped_demo_resolved = (Inr (), scoped_demo_cleared) \<and>
   disposed scoped_demo_cleared = [0] \<and>
   dispose singletons_demo = (Inl (Thrown ''fail''), singletons_demo\<lparr>disposed := [0]\<rparr>) \<and>
   dispose teardown_demo = (Inl (Thrown ''fail''), teardown_demo\<lparr>disposed := [0]\<rparr>) \<and>
   dispose scoped_demo_resolved = (Inr (), disposed_demo) \<and>
   disposed disposed_demo = [0]"
proof -
  let ?regA = "\<lparr>factory = Stateless (Construct (DisposeThrows ''fail'')), lifetime = Singleton,
                instance' = Obj 0, dependencies = []\<rparr>"
  let ?regB = "\<lparr>factory = Stateless (Construct DisposeOk), lifetime = Singleton,
                instance' = Obj 1, dependencies = []\<rparr>"
  note c1 = teardown_stops_at_first_error [THEN conjunct1]
  note c2 = teardown_stops_at_first_error [THEN conjunct2, THEN conjunct1]
  note c3 = teardown_stops_at_first_error [THEN conjunct2, THEN conjunct2, THEN conjunct1]
  note c4 = teardown_stops_at_first_error [THEN conjunct2, THEN conjunct2, THEN conjunct2,
      THEN conjunct1]
  note c5 = teardown_stops_at_first_error [THEN conjunct2, THEN conjunct2, THEN conjunct2,
      THEN conjunct2]
  have sc: "scopedInstances teardown_demo = [] @ (''A'', Obj 0) # [(''B'', Obj 1)]"
    by (simp add: teardown_demo_def)
  have q0: "scope_quiet teardown_demo []" by (simp add: scope_quiet_def)
  have errA: "hook_error teardown_demo (Obj 0) = Some (Thrown ''fail'')"
    by (simp add: teardown_demo_def)
  have "clearScope teardown_demo
      = (Inl (Thrown ''fail''),
         teardown_demo\<lparr>disposed := disposed teardown_demo
                                     @ disposable teardown_demo (map snd ([] :: (string \<times> val) list) @ [Obj 0])\<rparr>)"
    by (rule c1 [of teardown_demo "[]" "''A''" "Obj 0" "[(''B'', Obj 1)]" "Thrown ''fail''", THEN mp])
       (intro conjI sc q0 errA)
  then have w1: "clearScope teardown_demo = (Inl (Thrown ''fail''), teardown_demo\<lparr>disposed := [0]\<rparr>)"
    by (simp add: teardown_demo_def teardown_registered_def registerScoped_def run_simps)
  have q2: "scope_quiet scoped_demo_resolved (scopedInstances scoped_demo_resolved)"
    by (simp add: scope_quiet_def scoped_demo_resolved_def)
  have "clearScope scoped_demo_resolved
      = (Inr (), scoped_demo_resolved\<lparr>scopedInstances := [],
           disposed := disposed scoped_demo_resolved
             @ disposable scoped_demo_resolved (map snd (scopedInstances scoped_demo_resolved))\<rparr>)"
    by (rule c2 [of scoped_demo_resolved, THEN mp]) (rule q2)
  then have w2: "clearScope scoped_demo_resolved = (Inr (), scoped_demo_cleared)"
    by (simp add: scoped_demo_cleared_def scoped_demo_resolved_def scoped_demo_def run_simps)
  have w2': "disposed scoped_demo_cleared = [0]" by (simp add: scoped_demo_cleared_def)
  have sv: "services singletons_demo = [] @ (''A'', ?regA) # [(''B'', ?regB)]"
    by (simp add: singletons_demo_def singletons_registered_def registerSingleton_def run_simps)
  have q3: "singletons_quiet singletons_demo []" by (simp add: singletons_quiet_def)
  have errS: "hook_error singletons_demo (instance' ?regA) = Some (Thrown ''fail'')"
    by (simp add: singletons_demo_def)
  have "dispose singletons_demo
      = (Inl (Thrown ''fail''),
         singletons_demo\<lparr>disposed := disposed singletons_demo
             @ disposable singletons_demo (instances [] @ [instance' ?regA])\<rparr>)"
    by (rule c3 [of singletons_demo "[]" "''A''" ?regA "[(''B'', ?regB)]" "Thrown ''fail''", THEN mp])
       (intro conjI sv q3 errS)
  then have w3: "dispose singletons_demo = (Inl (Thrown ''fail''), singletons_demo\<lparr>disposed := [0]\<rparr>)"
    by (simp add: instances_def singletons_demo_def singletons_registered_def
        registerSingleton_def run_simps)
  have q4: "singletons_quiet teardown_demo (services teardown_demo)"
    by (simp add: singletons_quiet_def teardown_demo_def teardown_registered_def
        registerScoped_def run_simps)
  have "dispose teardown_demo
      = (Inl (Thrown ''fail''),
         teardown_demo\<lparr>disposed := disposed teardown_demo
             @ disposable teardown_demo (instances (services teardown_demo))
             @ disposable teardown_demo (map snd ([] :: (string \<times> val) list) @ [Obj 0])\<rparr>)"
    by (rule c4 [of teardown_demo "[]" "''A''" "Obj 0" "[(''B'', Obj 1)]" "Thrown ''fail''", THEN mp])
       (intro conjI q4 sc q0 errA)
  then have w4: "dispose teardown_demo = (Inl (Thrown ''fail''), teardown_demo\<lparr>disposed := [0]\<rparr>)"
    by (simp add: instances_def teardown_demo_def teardown_registered_def registerScoped_def
        run_simps)
  have q5: "singletons_quiet scoped_demo_resolved (services scoped_demo_resolved)"
    by (simp add: singletons_quiet_def scoped_demo_resolved_def scoped_demo_def run_simps)
  have "dispose scoped_demo_resolved
      = (Inr (), scoped_demo_resolved\<lparr>services := [], scopedInstances := [],
           dependencyGraph := [], listeners := [],
           disposed := disposed scoped_demo_resolved
             @ disposable scoped_demo_resolved (instances (services scoped_demo_resolved))
             @ disposable scoped_demo_resolved (map snd (scopedInstances scoped_demo_resolved))\<rparr>)"
    by (rule c5 [of scoped_demo_resolved, THEN mp]) (intro conjI q5 q2)
  then have w5: "dispose scoped_demo_resolved = (Inr (), disposed_demo)"
    by (simp add: instances_def disposed_demo_def scoped_demo_resolved_def scoped_demo_def
        run_simps)
  have w5': "disposed disposed_demo = [0]" by (simp add: disposed_demo_def)
  from w1 w2 w2' w3 w4 w5 w5' show ?thesis by blast
qed





subsection \<open>Cycles and chains\<close>

lemma builds_frame [simp]:
  "builds (s\<lparr>resolutionStack := st\<rparr>) n reg = builds s n reg"
  "builds (logged m f s) n reg = builds s n reg"
  by (simp_all add: builds_def split: ServiceLifetime.splits)

lemma cyclic_chain_frame:
  "cyclic_chain (logged m f (s\<lparr>resolutionStack := st\<rparr>)) ns target = cyclic_chain s ns target"
  by (induction s ns target rule: cyclic_chain.induct) (auto split: option.splits)

lemma acyclic_chain_frame:
  "acyclic_chain (logged m f (s\<lparr>resolutionStack := st\<rparr>)) ns = acyclic_chain s ns"
  by (induction s ns rule: acyclic_chain.induct) (auto split: option.splits)

lemma cyclic_chain_registered: "cyclic_chain s ns target \<Longrightarrow> n \<in> set ns \<Longrightarrow> Map_has (services s) n"
  by (induction s ns target rule: cyclic_chain.induct)
     (auto simp: Map_has_def Map_get_def split: option.splits)

lemma logged_stateless:
  "logged n (Stateless b) (s\<lparr>resolutionStack := st\<rparr>) = s\<lparr>resolutionStack := st, calls := calls s @ [n]\<rparr>"
  by simp

lemma cyclic_chain_fails:
  assumes "cyclic_chain s ns target" and "set ns \<inter> set (resolutionStack s) = {}"
    and "target \<in> set (resolutionStack s) \<union> set ns" and "Map_has (services s) target"
  shows "resolve (Suc (length ns)) (hd ns) s
     = Some (Inl (wrapped ns (CircularDependency (resolutionStack s @ ns @ [target]))),
             s\<lparr>resolutionStack := resolutionStack s @ ns, calls := calls s @ ns\<rparr>)"
  using assms
proof (induction ns arbitrary: s)
  case Nil
  then show ?case by simp
next
  case (Cons n rest)
  let ?k = "length rest"
  from Cons.prems(1) obtain reg where reg: "Map_get (services s) n = Some reg"
    by (cases rest) (auto split: option.splits)
  from Cons.prems(1) reg have b: "builds s n reg" by (cases rest) simp_all
  from Cons.prems(2) have off: "n \<notin> set (resolutionStack s)" by auto
  let ?s1 = "s\<lparr>resolutionStack := Set_add (resolutionStack s) n\<rparr>"
  let ?s2 = "logged n (factory reg) ?s1"
  have st2: "resolutionStack ?s2 = resolutionStack s @ [n]" using off by (simp add: Set_add_def)
  have "\<exists>dep tail. factory reg = Stateless (Resolve dep tail) \<and>
      resolve (Suc ?k) dep ?s2
        = Some (Inl (wrapped rest (CircularDependency (resolutionStack s @ n # rest @ [target]))),
                s\<lparr>resolutionStack := resolutionStack s @ n # rest, calls := calls s @ n # rest\<rparr>)"
  proof (cases rest)
    case Nil
    with Cons.prems(1) reg have "resolves_first (factory reg) target" by simp
    then obtain tail where f: "factory reg = Stateless (Resolve target tail)"
      by (cases "(factory reg, target)" rule: resolves_first.cases) auto
    have "target \<in> set (resolutionStack ?s2)" using Cons.prems(3) Nil st2 by auto
    moreover have "Map_has (services ?s2) target" using Cons.prems(4) by simp
    ultimately have "resolve (Suc ?k) target ?s2
        = Some (Inl (CircularDependency (resolutionStack ?s2 @ [target])), ?s2)"
      by (rule resolve_on_stack [rotated])
    with f Nil st2 off show ?thesis by (simp add: Set_add_def del: resolve.simps)
  next
    case (Cons m ms)
    with Cons.prems(1) reg have first: "resolves_first (factory reg) m" and nin: "n \<notin> set rest"
      and sub: "cyclic_chain s rest target" by simp_all
    from first obtain tail where f: "factory reg = Stateless (Resolve m tail)"
      by (cases "(factory reg, m)" rule: resolves_first.cases) auto
    have c2: "cyclic_chain ?s2 rest target" using sub by (simp add: cyclic_chain_frame)
    have d2: "set rest \<inter> set (resolutionStack ?s2) = {}" using Cons.prems(2) nin st2 by auto
    have b2: "target \<in> set (resolutionStack ?s2) \<union> set rest" using Cons.prems(3) st2 by auto
    have h2: "Map_has (services ?s2) target" using Cons.prems(4) by simp
    from Cons.IH [OF c2 d2 b2 h2] Cons f st2 off show ?thesis
      by (simp add: Set_add_def del: resolve.simps)
  qed
  then obtain dep tail where f: "factory reg = Stateless (Resolve dep tail)"
    and inner: "resolve (Suc ?k) dep ?s2
        = Some (Inl (wrapped rest (CircularDependency (resolutionStack s @ n # rest @ [target]))),
                s\<lparr>resolutionStack := resolutionStack s @ n # rest, calls := calls s @ n # rest\<rparr>)"
    by blast
  from inner f have "createInstance (resolve (Suc ?k)) n reg ?s1
      = Some (Inl (ConstructionFailed n (wrapped rest (CircularDependency (resolutionStack s @ n # rest @ [target])))),
              s\<lparr>resolutionStack := resolutionStack s @ n # rest, calls := calls s @ n # rest\<rparr>)"
    by (simp add: createInstance_def del: resolve.simps)
  with resolve_builds [OF reg off b, of "Suc ?k"] show ?case by (simp del: resolve.simps)
qed

lemma cache_fields [simp]:
  "calls (cache lt n v s) = calls s" "heap (cache lt n v s) = heap s"
  by (cases lt; simp add: cache_def)+

lemma store_fields [simp]:
  "calls (store lt n v s) = calls s" "heap (store lt n v s) = heap s"
  by (cases lt; simp add: store_def)+

lemma acyclic_chain_resolves:
  assumes "acyclic_chain s ns" and "set ns \<inter> set (resolutionStack s) = {}"
  shows "\<exists>s'. resolve (Suc (length ns)) (hd ns) s
            = Some (Inr (Obj (length (heap s) + length ns - 1)), s') \<and>
          calls s' = calls s @ ns \<and> length (heap s') = length (heap s) + length ns"
  using assms
proof (induction ns arbitrary: s)
  case Nil
  then show ?case by simp
next
  case (Cons n rest)
  let ?k = "length rest"
  from Cons.prems(1) obtain reg where reg: "Map_get (services s) n = Some reg"
    by (cases rest) (auto split: option.splits)
  from Cons.prems(1) reg have b: "builds s n reg" by (cases rest) simp_all
  from Cons.prems(2) have off: "n \<notin> set (resolutionStack s)" by auto
  let ?s1 = "s\<lparr>resolutionStack := Set_add (resolutionStack s) n\<rparr>"
  let ?s2 = "logged n (factory reg) ?s1"
  show ?case
  proof (cases rest)
    case Nil
    with Cons.prems(1) reg have "is_leaf (factory reg)" by simp
    then obtain h where "factory reg = Stateless (Construct h)"
      by (cases "factory reg" rule: is_leaf.cases) auto
    then have "next_body (factory reg) s = Construct h" by simp
    from resolve_constructing_factory [OF reg off b this, of "Suc ?k"] Nil show ?thesis
      by (simp del: resolve.simps)
  next
    case (Cons m ms)
    with Cons.prems(1) reg have link: "is_link (factory reg) m" and nin: "n \<notin> set rest"
      and sub: "acyclic_chain s rest" by simp_all
    from link obtain h where f: "factory reg = Stateless (Resolve m (Construct h))"
      by (cases "(factory reg, m)" rule: is_link.cases) auto
    have st2: "resolutionStack ?s2 = resolutionStack s @ [n]" using off by (simp add: Set_add_def)
    have c2: "acyclic_chain ?s2 rest" using sub by (simp add: acyclic_chain_frame)
    have d2: "set rest \<inter> set (resolutionStack ?s2) = {}" using Cons.prems(2) nin st2 by auto
    from Cons.IH [OF c2 d2] Cons obtain t where
      inner: "resolve (Suc ?k) m ?s2 = Some (Inr (Obj (length (heap ?s2) + ?k - 1)), t)"
      and ct: "calls t = calls ?s2 @ rest" and ht: "length (heap t) = length (heap ?s2) + ?k"
      by auto
    from inner f have "createInstance (resolve (Suc ?k)) n reg ?s1
        = Some (Inr (Obj (length (heap t))), t\<lparr>heap := heap t @ [h]\<rparr>)"
      by (simp add: createInstance_def del: resolve.simps)
    with resolve_builds [OF reg off b, of "Suc ?k"]
    have "resolve (Suc (Suc ?k)) n s
        = Some (Inr (Obj (length (heap t))),
                store (lifetime reg) n (Obj (length (heap t))) (t\<lparr>heap := heap t @ [h]\<rparr>))"
      by (simp del: resolve.simps)
    with ct ht show ?thesis by (simp del: resolve.simps)
  qed
qed

lemma spec_cycle_path_suffix:
  "stack @ [name] = takeWhile (\<lambda>x. x \<noteq> name) stack @ spec_cycle_path stack name"
  by (simp add: spec_cycle_path_def)

text \<open>
  C4, as stated, gives the error the names from the first occurrence of the re-entered
  name. The source builds the payload as \<open>Array.from(this.resolutionStack).concat(name)\<close>,
  the whole stack. On a new container with the chain \<open>A\<close>, \<open>B\<close>, \<open>C\<close>, \<open>B\<close> the re-entrant call of
  \<open>resolve('B')\<close> fails with \<open>A -> B -> C -> B\<close> where the statement has \<open>B -> C -> B\<close>, and each
  enclosing \<open>createInstance\<close> wraps the error on its way out. And not every acyclic chain
  resolves: after the factory of \<open>F\<close> has failed once, the name \<open>F\<close> is still on the stack
  (the defect of C1), and the chain in which \<open>G\<close> resolves \<open>F\<close> is rejected as a cycle.
\<close>

theorem cycle_payload_counterexample:
  "resolve (Suc 0) ''B'' cycle_demo_entered
     = Some (Inl (CircularDependency [''A'', ''B'', ''C'', ''B'']), cycle_demo_entered) \<and>
   spec_cycle_path (resolutionStack cycle_demo_entered) ''B'' = [''B'', ''C'', ''B''] \<and>
   [''A'', ''B'', ''C'', ''B''] \<noteq> [''B'', ''C'', ''B''] \<and>
   resolutionStack cycle_demo = [] \<and>
   resolve (Suc (Suc (Suc (Suc 0)))) ''A'' cycle_demo
     = Some (Inl (ConstructionFailed ''A'' (ConstructionFailed ''B'' (ConstructionFailed ''C''
          (CircularDependency [''A'', ''B'', ''C'', ''B''])))), cycle_demo_entered) \<and>
   resolve (Suc 0) ''F'' stale_demo
     = Some (Inl (ConstructionFailed ''F'' (Thrown ''boom'')), stale_demo_failed) \<and>
   map_option fst (resolve (Suc (Suc 0)) ''G'' stale_demo_failed)
     = Some (Inl (ConstructionFailed ''G'' (CircularDependency [''F'', ''G'', ''F''])))"
  by (simp add: cycle_demo_entered_def cycle_demo_def stale_demo_failed_def stale_demo_def
      flaky_demo_def fails_first_def link_to_def spec_cycle_path_def run_simps)

text \<open>
  C4, amended, for a container whose resolution stack is empty, that is, with no
  resolution in progress and no name left behind by a failed one. Let the services
  \<open>ns\<close> be registered and not cached, the factory of each begin by resolving the next, and
  the factory of the last begin by resolving a name \<open>target\<close> of \<open>ns\<close>. Then the call of
  \<open>resolve(target)\<close> made by the last factory, in the state where all of \<open>ns\<close> are under
  construction, fails with the circular-dependency error and changes nothing; its
  payload is the whole chain \<open>ns\<close> followed by \<open>target\<close>, which ends with the path from the
  first occurrence of \<open>target\<close> and has the names entered before it in front; and the
  resolution of the first name fails with this error wrapped in one construction error
  for each name of the chain. An acyclic chain of services that are not cached, each
  factory resolving the next and then constructing an object, resolves successfully, the
  factories of the chain run once each, in the order of the chain, and the stack is empty
  again.
\<close>

theorem cycle_payload_is_resolution_stack:
  "(resolutionStack s = [] \<and> cyclic_chain s ns target \<and> target \<in> set ns \<longrightarrow>
      resolve (Suc k) target (s\<lparr>resolutionStack := ns, calls := calls s @ ns\<rparr>)
        = Some (Inl (CircularDependency (ns @ [target])),
                s\<lparr>resolutionStack := ns, calls := calls s @ ns\<rparr>) \<and>
      ns @ [target] = takeWhile (\<lambda>x. x \<noteq> target) ns @ spec_cycle_path ns target \<and>
      map_option fst (resolve (Suc (length ns)) (hd ns) s)
        = Some (Inl (wrapped ns (CircularDependency (ns @ [target]))))) \<and>
   (resolutionStack s = [] \<and> acyclic_chain s ns \<longrightarrow>
      (\<exists>s'. resolve (Suc (length ns)) (hd ns) s
               = Some (Inr (Obj (length (heap s) + length ns - 1)), s') \<and>
             calls s' = calls s @ ns \<and> resolutionStack s' = []))"
proof (intro conjI impI)
  assume a: "resolutionStack s = [] \<and> cyclic_chain s ns target \<and> target \<in> set ns"
  then have has: "Map_has (services s) target" using cyclic_chain_registered by blast
  let ?t = "s\<lparr>resolutionStack := ns, calls := calls s @ ns\<rparr>"
  have "Map_has (services ?t) target" using has by simp
  moreover have "target \<in> set (resolutionStack ?t)" using a by simp
  ultimately have "resolve (Suc k) target ?t
      = Some (Inl (CircularDependency (resolutionStack ?t @ [target])), ?t)"
    by (rule resolve_on_stack)
  then show "resolve (Suc k) target ?t = Some (Inl (CircularDependency (ns @ [target])), ?t)"
    by (simp del: resolve.simps)
  show "ns @ [target] = takeWhile (\<lambda>x. x \<noteq> target) ns @ spec_cycle_path ns target"
    by (rule spec_cycle_path_suffix)
  from a have "set ns \<inter> set (resolutionStack s) = {}"
    and "target \<in> set (resolutionStack s) \<union> set ns" by simp_all
  from cyclic_chain_fails [OF _ this has] a
  show "map_option fst (resolve (Suc (length ns)) (hd ns) s)
      = Some (Inl (wrapped ns (CircularDependency (ns @ [target]))))"
    by (simp del: resolve.simps)
next
  assume a: "resolutionStack s = [] \<and> acyclic_chain s ns"
  then have "set ns \<inter> set (resolutionStack s) = {}" by simp
  from acyclic_chain_resolves [OF _ this] a obtain s' where
    run: "resolve (Suc (length ns)) (hd ns) s
        = Some (Inr (Obj (length (heap s) + length ns - 1)), s')"
    and c: "calls s' = calls s @ ns" by blast
  from resolve_success_stack [OF run] a have "resolutionStack s' = []" by simp
  with run c show "\<exists>s'. resolve (Suc (length ns)) (hd ns) s
               = Some (Inr (Obj (length (heap s) + length ns - 1)), s') \<and>
             calls s' = calls s @ ns \<and> resolutionStack s' = []"
    by blast
qed

theorem cycle_payload_is_resolution_stack_witness:
  "resolve (Suc 0) ''B'' cycle_demo_entered
     = Some (Inl (CircularDependency [''A'', ''B'', ''C'', ''B'']), cycle_demo_entered) \<and>
   map_option fst (resolve (Suc (Suc (Suc (Suc 0)))) ''A'' cycle_demo)
     = Some (Inl (ConstructionFailed ''A'' (ConstructionFailed ''B'' (ConstructionFailed ''C''
          (CircularDependency [''A'', ''B'', ''C'', ''B'']))))) \<and>
   cycle_message [''A'', ''B'', ''C'', ''B''] = ''Circular dependency detected: A -> B -> C -> B'' \<and>
   resolve (Suc (Suc (Suc (Suc 0)))) ''A'' chain_demo = Some (Inr (Obj 2), chain_demo_resolved) \<and>
   calls chain_demo_resolved = calls chain_demo @ [''A'', ''B'', ''C''] \<and>
   resolutionStack chain_demo_resolved = []"
proof -
  have pre: "resolutionStack cycle_demo = [] \<and> cyclic_chain cycle_demo [''A'', ''B'', ''C''] ''B'' \<and>
      ''B'' \<in> set [''A'', ''B'', ''C'']"
    by (simp add: cycle_demo_def link_to_def builds_def run_simps)
  note inst = cycle_payload_is_resolution_stack [THEN conjunct1, THEN mp, OF pre, of 0]
  from inst [THEN conjunct1]
  have w1: "resolve (Suc 0) ''B'' cycle_demo_entered
      = Some (Inl (CircularDependency [''A'', ''B'', ''C'', ''B'']), cycle_demo_entered)"
    by (simp add: cycle_demo_entered_def del: resolve.simps)
  from inst [THEN conjunct2, THEN conjunct2]
  have w2: "map_option fst (resolve (Suc (Suc (Suc (Suc 0)))) ''A'' cycle_demo)
      = Some (Inl (ConstructionFailed ''A'' (ConstructionFailed ''B'' (ConstructionFailed ''C''
           (CircularDependency [''A'', ''B'', ''C'', ''B''])))))"
    by (simp del: resolve.simps)
  have w3: "cycle_message [''A'', ''B'', ''C'', ''B''] = ''Circular dependency detected: A -> B -> C -> B''"
    by (simp add: cycle_message_def)
  have chain: "resolutionStack chain_demo = [] \<and> acyclic_chain chain_demo [''A'', ''B'', ''C'']"
    by (simp add: chain_demo_def link_to_def builds_def run_simps)
  have run: "resolve (Suc (Suc (Suc (Suc 0)))) ''A'' chain_demo = Some (Inr (Obj 2), chain_demo_resolved)"
    by (simp add: chain_demo_resolved_def chain_demo_def link_to_def run_simps)
  from cycle_payload_is_resolution_stack [THEN conjunct2, THEN mp, OF chain]
  obtain s' where "resolve (Suc (length [''A'', ''B'', ''C''])) (hd [''A'', ''B'', ''C'']) chain_demo
        = Some (Inr (Obj (length (heap chain_demo) + length [''A'', ''B'', ''C''] - 1)), s')"
    and c: "calls s' = calls chain_demo @ [''A'', ''B'', ''C'']" and st: "resolutionStack s' = []"
    by blast
  with run have "s' = chain_demo_resolved" by (simp del: resolve.simps)
  with c st have w4: "calls chain_demo_resolved = calls chain_demo @ [''A'', ''B'', ''C'']"
    and w5: "resolutionStack chain_demo_resolved = []" by simp_all
  from w1 w2 w3 run w4 w5 show ?thesis by blast
qed

subsection \<open>Scopes\<close>

lemma cleared_scope_fields [simp]:
  "services (cleared_scope s) = services s" "scopedInstances (cleared_scope s) = []"
  "dependencyGraph (cleared_scope s) = dependencyGraph s"
  "resolutionStack (cleared_scope s) = resolutionStack s"
  "heap (cleared_scope s) = heap s" "calls (cleared_scope s) = calls s"
  "invoked (cleared_scope s) = invoked s"
  by (simp_all add: cleared_scope_def)

lemma next_body_cleared [simp]: "next_body f (cleared_scope s) = next_body f s"
  by (cases f) simp_all




end
